theory Spec2Isabelle
  imports Complex_Main "HOL-Library.Log_Nat"
begin

section \<open>Python strings\<close>

text \<open>
  The program is Python 2: a \<open>str\<close> is a byte string, modelled as \<open>string\<close>.
  The helpers below are the string methods that \<open>blueflower/core.py\<close> calls.
\<close>

definition NL :: char where
  "NL = CHR 0x0A"

text \<open>\<open>str.isspace\<close> on one byte in the C locale: space, TAB, LF, VT, FF, CR.\<close>

definition py_isspace :: "char \<Rightarrow> bool" where
  "py_isspace c = (c = CHR 0x20 \<or> c = CHR 0x09 \<or> c = CHR 0x0A \<or> c = CHR 0x0B
                   \<or> c = CHR 0x0C \<or> c = CHR 0x0D)"

text \<open>\<open>s.strip()\<close>: leading and trailing whitespace removed.\<close>

definition strip :: "string \<Rightarrow> string" where
  "strip s = rev (dropWhile py_isspace (rev (dropWhile py_isspace s)))"

text \<open>\<open>s.rstrip('\n')\<close>: every trailing newline removed.\<close>

definition rstrip_nl :: "string \<Rightarrow> string" where
  "rstrip_nl s = rev (dropWhile (\<lambda>c. c = NL) (rev s))"

text \<open>\<open>s.split(sep)\<close> for a one-character separator: \<open>n\<close> separators give \<open>n + 1\<close> fields.\<close>

fun split_str :: "char \<Rightarrow> string \<Rightarrow> string list" where
  "split_str sep [] = [[]]"
| "split_str sep (c # cs) =
     (if c = sep then [] # split_str sep cs
      else (case split_str sep cs of
              [] \<Rightarrow> [[c]]
            | f # fs \<Rightarrow> (c # f) # fs))"

text \<open>
  The lines of a text file as \<open>readline\<close> and iteration over the file object give them:
  each line keeps its terminating newline, the last one may lack it.
\<close>

fun split_lines :: "string \<Rightarrow> string list" where
  "split_lines [] = []"
| "split_lines (c # cs) =
     (if c = NL then [c] # split_lines cs
      else (case split_lines cs of
              [] \<Rightarrow> [[c]]
            | l # ls \<Rightarrow> (c # l) # ls))"

text \<open>
  A file object is the list of the lines not yet read. \<open>fin.readline()\<close> returns the next
  line and advances, and returns the empty string at end of file.
\<close>

definition readline :: "string list \<Rightarrow> string \<times> string list" where
  "readline fin = (case fin of [] \<Rightarrow> ([], []) | l # ls \<Rightarrow> (l, ls))"

text \<open>\<open>'%d' % n\<close> for a non-negative integer.\<close>

definition digit_char :: "nat \<Rightarrow> char" where
  "digit_char d = ''0123456789'' ! d"

fun str_of_nat :: "nat \<Rightarrow> string" where
  "str_of_nat n = (if n < 10 then [digit_char n]
                   else str_of_nat (n div 10) @ [digit_char (n mod 10)])"

declare str_of_nat.simps [simp del]

text \<open>
  \<open>s.count(sub)\<close>: the number of non-overlapping occurrences of \<open>sub\<close> in \<open>s\<close>, found by a
  scan from the left that jumps over each occurrence it finds. For the empty \<open>sub\<close> Python
  returns \<open>len(s) + 1\<close>.
\<close>

function py_count :: "string \<Rightarrow> string \<Rightarrow> nat" where
  "py_count sub s =
     (if sub = [] then length s + 1
      else if length s < length sub then 0
      else if take (length sub) s = sub then 1 + py_count sub (drop (length sub) s)
      else py_count sub (tl s))"
  by pat_completeness auto
termination
  by (relation "measure (\<lambda>(sub, s). length s)") (auto simp: neq_Nil_conv)

declare py_count.simps [simp del]

text \<open>
  \<open>posixpath.join(a, b)\<close>: an absolute \<open>b\<close> replaces \<open>a\<close>; otherwise the two are joined with
  exactly one slash between them.
\<close>

definition path_join :: "string \<Rightarrow> string \<Rightarrow> string" where
  "path_join a b =
     (if b \<noteq> [] \<and> hd b = CHR ''/'' then b
      else if a = [] \<or> last a = CHR ''/'' then a @ b
      else a @ ''/'' @ b)"

text \<open>\<open>s.lower()\<close> on a byte string in the C locale: only \<open>A\<close> to \<open>Z\<close> change.\<close>

definition lower_char :: "char \<Rightarrow> char" where
  "lower_char c = (let n = of_char c :: nat in
                   if 65 \<le> n \<and> n \<le> 90 then char_of (n + 32) else c)"

definition lower :: "string \<Rightarrow> string" where
  "lower s = map lower_char s"

section \<open>Process state, trace and external collaborators\<close>

text \<open>
  Everything the program does to the outside is recorded, in order, in a trace: the calls
  of the logging functions of \<open>blueflower.utils.log\<close>, the calls of \<open>do_file\<close>, the
  writes to standard output and the \<open>print\<close> statements.
\<close>

datatype event =
    Log_comment string
  | Log_error string string
  | Log_secret string string
  | Log_encrypted string string
  | Do_file string string
  | Stdout_write string
  | Print string

text \<open>
  \<open>HASH_KEY\<close> starts as the integer \<open>0\<close> and later holds whatever \<open>key_derivation\<close>
  returned; the type of keys is left open.
\<close>

datatype 'k keyval = KInt int | Derived 'k

text \<open>The three module-level globals of \<open>core.py\<close>, and the trace.\<close>

record 'k state =
  HASHES :: "string set"
  HASH_KEY :: "'k keyval"
  HASH_REGEX :: string
  trace :: "event list"

definition initial_state :: "'k state" where
  "initial_state = \<lparr>HASHES = {}, HASH_KEY = KInt 0, HASH_REGEX = [], trace = []\<rparr>"

text \<open>
  How a call ends: it returns a value, it ends the process with \<open>sys.exit(code)\<close>, or an
  exception leaves it.
\<close>

datatype 'a outcome = Returns 'a | Exits nat | Raises string

text \<open>
  The modules \<open>blueflower.constants\<close>, \<open>blueflower.types\<close>, \<open>blueflower.do\<close> and
  \<open>blueflower.utils\<close> and the Python library are parameters of the model:
  \<^item> \<open>key_derivation pwd salt\<close> returns \<open>(key, verifier, salt)\<close>;
  \<^item> \<open>re_compile_ok r\<close> holds when \<open>re.compile(r)\<close> does not raise \<open>re.error\<close>;
  \<^item> \<open>int16_ok s\<close> holds when \<open>int(s, 16)\<close> does not raise \<open>ValueError\<close>;
  \<^item> \<open>infilename_search s\<close> is \<open>Some g\<close> when the compiled \<open>INFILENAME\<close> pattern matches
    somewhere in \<open>s\<close>, with \<open>g\<close> the matched text (\<open>res.group()\<close>);
  \<^item> \<open>type_file p\<close> returns \<open>(ftype, supported)\<close>;
  \<^item> \<open>abspath\<close> is \<open>os.path.abspath\<close>;
  \<^item> \<open>fmt_3_1f r\<close> is \<open>'%3.1f' % r\<close>;
  \<^item> \<open>log_text t\<close> is the text of the log file after the trace \<open>t\<close>.
\<close>

record 'k externals =
  key_derivation :: "string \<Rightarrow> string \<Rightarrow> 'k \<times> string \<times> string"
  HASH_BYTES :: nat
  re_compile_ok :: "string \<Rightarrow> bool"
  int16_ok :: "string \<Rightarrow> bool"
  PROGRAM :: string
  SKIP :: "string list"
  ENCRYPTED :: "string list"
  infilename_search :: "string \<Rightarrow> string option"
  type_file :: "string \<Rightarrow> string \<times> bool"
  abspath :: "string \<Rightarrow> string"
  fmt_3_1f :: "rat \<Rightarrow> string"
  log_text :: "event list \<Rightarrow> string"

definition emit :: "event \<Rightarrow> 'k state \<Rightarrow> 'k state" where
  "emit e st = st\<lparr>trace := trace st @ [e]\<rparr>"

definition log_comment :: "string \<Rightarrow> 'k state \<Rightarrow> 'k state" where
  "log_comment msg st = emit (Log_comment msg) st"

text \<open>\<open>bye\<close> (lines 187-189): prints a line and ends the process with status 1.\<close>

definition bye :: "'k externals \<Rightarrow> 'k state \<Rightarrow> 'a outcome \<times> 'k state" where
  "bye x st =
     (Exits 1, emit (Print (''thank you for using '' @ PROGRAM x @ '', please report bugs'')) st)"

section \<open>\<open>get_hashes\<close>\<close>

text \<open>
  One round of the loop over the hash lines (lines 75-90). The loop variables are the
  flag \<open>fail\<close>, the list \<open>hashes\<close> and the state.
\<close>

definition msg_hash_length :: "string \<Rightarrow> string" where
  "msg_hash_length ahash =
     ''invalid hash length ('' @ str_of_nat (length ahash) @ '' bytes): '' @ ahash"

definition msg_hash_value :: "string \<Rightarrow> string" where
  "msg_hash_value ahash = ''invalid hash value (should be hex string): '' @ ahash"

definition check_line ::
  "'k externals \<Rightarrow> string \<Rightarrow> bool \<times> string list \<times> 'k state \<Rightarrow> bool \<times> string list \<times> 'k state"
where
  "check_line x line = (\<lambda>(fail, hashes, st).
     let ahash = strip line;
         (fail1, st1) =
            (if length ahash \<noteq> 2 * HASH_BYTES x
             then (True, log_comment (msg_hash_length ahash) st)
             else (fail, st));
         (fail2, st2) =
            (if \<not> int16_ok x ahash
             then (True, log_comment (msg_hash_value ahash) st1)
             else (fail1, st1))
     in (fail2, if \<not> fail2 then hashes @ [ahash] else hashes, st2))"

text \<open>The loop \<open>for line in fin\<close> (line 74).\<close>

fun check_lines ::
  "'k externals \<Rightarrow> string list \<Rightarrow> bool \<times> string list \<times> 'k state \<Rightarrow> bool \<times> string list \<times> 'k state"
where
  "check_lines x [] acc = acc"
| "check_lines x (line # fin) acc = check_lines x fin (check_line x line acc)"

text \<open>
  Lines 55-90: key derivation, the verifier test, the regex test and the loop, run with the
  file object at its third line. The result is the final \<open>fail\<close>, the list \<open>hashes\<close> and
  the state.
\<close>

definition get_hashes_checks ::
  "'k externals \<Rightarrow> string \<Rightarrow> string \<Rightarrow> string \<Rightarrow> string \<Rightarrow> string list \<Rightarrow> 'k state
     \<Rightarrow> bool \<times> string list \<times> 'k state"
where
  "get_hashes_checks x pwd regex salt verifier fin st =
     (let (key, averifier, salt') = key_derivation x pwd salt;
          (fail1, st1) =
             (if verifier \<noteq> averifier
              then (True, log_comment ''verifier does not match (incorrect password?)'' st)
              else (False, st\<lparr>HASH_KEY := Derived key, HASH_REGEX := regex\<rparr>));
          (fail2, st2) =
             (if \<not> re_compile_ok x regex
              then (True, log_comment ''invalid regex'' st1)
              else (fail1, st1))
      in check_lines x fin (fail2, [], st2))"

text \<open>Lines 92-101: the end of \<open>get_hashes\<close>.\<close>

definition get_hashes_finish ::
  "'k externals \<Rightarrow> bool \<times> string list \<times> 'k state \<Rightarrow> unit outcome \<times> 'k state"
where
  "get_hashes_finish x = (\<lambda>(fail, hashes, st).
     if fail then bye x (log_comment ''hashes file failed to verify, aborting...'' st)
     else
       let st1 = st\<lparr>HASHES := set hashes\<rparr>;
           st2 = log_comment (str_of_nat (length hashes) @ '' hashes read, ''
                              @ str_of_nat (card (HASHES st1)) @ '' uniques'') st1;
           st3 = log_comment (''using regex '' @ HASH_REGEX st2) st2;
           st4 = log_comment ''hashes file successfully verified'' st3
       in (Returns (), st4))"

text \<open>
  \<open>get_hashes\<close> (lines 41-101). \<open>pwd\<close> is what \<open>getpass\<close> returned and \<open>content\<close> the
  text of the hashes file.
\<close>

definition get_hashes ::
  "'k externals \<Rightarrow> string \<Rightarrow> string \<Rightarrow> string \<Rightarrow> 'k state \<Rightarrow> unit outcome \<times> 'k state"
where
  "get_hashes x hashesfile pwd content st =
     (let st1 = log_comment (''verifying hashes file '' @ hashesfile @ ''...'') st;
          (line1, fin1) = readline (split_lines content);
          regex = rstrip_nl line1;
          (line2, fin2) = readline fin1
      in case split_str (CHR '','') (rstrip_nl line2) of
           [salt, verifier] \<Rightarrow>
             get_hashes_finish x (get_hashes_checks x pwd regex salt verifier fin2 st1)
         | _ \<Rightarrow> bye x (log_comment ''failed to extract verifier and salt'' st1))"

section \<open>The file tree and \<open>os.walk\<close>\<close>

text \<open>
  A directory entry is a regular file with the result of \<open>os.path.getsize\<close> on it (the
  text of the \<open>OSError\<close>, or the size in bytes), a directory with its entries in the
  order \<open>os.listdir\<close> gives them, or a directory that \<open>os.walk\<close> lists among \<open>dirs\<close>
  but does not enter (a symbolic link to a directory, or a directory whose listing fails).
\<close>

datatype fsnode =
    File string "string + nat"
  | Dir string "fsnode list"
  | Dir_opaque string

fun entry_name :: "fsnode \<Rightarrow> string" where
  "entry_name (File n sz) = n"
| "entry_name (Dir n entries) = n"
| "entry_name (Dir_opaque n) = n"

fun is_dir :: "fsnode \<Rightarrow> bool" where
  "is_dir (File n sz) = False"
| "is_dir (Dir n entries) = True"
| "is_dir (Dir_opaque n) = True"

text \<open>The list \<open>nondirs\<close> of \<open>os.walk\<close>: each file name, here with its size result.\<close>

fun files_of :: "fsnode list \<Rightarrow> (string \<times> (string + nat)) list" where
  "files_of [] = []"
| "files_of (File n sz # es) = (n, sz) # files_of es"
| "files_of (e # es) = files_of es"

text \<open>\<open>dirs.remove(skip)\<close>: the first entry of that name goes.\<close>

fun remove_entry :: "string \<Rightarrow> fsnode list \<Rightarrow> fsnode list" where
  "remove_entry n [] = []"
| "remove_entry n (e # es) = (if entry_name e = n then es else e # remove_entry n es)"

text \<open>
  Lines 112-114 and 150-152: \<open>for skip in SKIP: if skip in dirs: dirs.remove(skip)\<close>.
\<close>

fun prune_dirs :: "string list \<Rightarrow> fsnode list \<Rightarrow> fsnode list" where
  "prune_dirs [] dirs = dirs"
| "prune_dirs (skip # skips) dirs =
     prune_dirs skips (if skip \<in> set (map entry_name dirs) then remove_entry skip dirs else dirs)"

lemma set_remove_entry: "set (remove_entry n es) \<subseteq> set es"
  by (induction es) auto

lemma set_prune_dirs: "set (prune_dirs skips dirs) \<subseteq> set dirs"
proof (induction skips arbitrary: dirs)
  case Nil
  show ?case by simp
next
  case (Cons skip skips)
  have "set (prune_dirs skips (remove_entry skip dirs)) \<subseteq> set dirs"
    using Cons.IH [of "remove_entry skip dirs"] set_remove_entry [of skip dirs] by blast
  with Cons.IH [of dirs] show ?case by simp
qed

text \<open>
  \<open>os.walk(top)\<close>, top down, as both loops of the program drive it: for each directory it
  yields \<open>(root, dirs, files)\<close>, the loop body removes the names of \<open>SKIP\<close> from \<open>dirs\<close>,
  and the generator then enters the directories left in \<open>dirs\<close>, in order. A \<open>top\<close>
  that cannot be listed yields nothing.
\<close>

function walk :: "string list \<Rightarrow> string \<Rightarrow> fsnode
                    \<Rightarrow> (string \<times> fsnode list \<times> (string \<times> (string + nat)) list) list" where
  "walk skips dirpath (Dir n entries) =
     (dirpath, filter is_dir entries, files_of entries)
       # concat (map (\<lambda>d. walk skips (path_join dirpath (entry_name d)) d)
                     (prune_dirs skips (filter is_dir entries)))"
| "walk skips dirpath (Dir_opaque n) = []"
| "walk skips dirpath (File n sz) = []"
  by pat_completeness auto
termination
proof (relation "measure (\<lambda>(skips, dirpath, t). size t)")
  show "wf (measure (\<lambda>(skips, dirpath, t). size t))" by simp
next
  fix skips :: "string list" and dirpath n :: string and entries :: "fsnode list" and d :: fsnode
  assume "d \<in> set (prune_dirs skips (filter is_dir entries))"
  then have "d \<in> set entries"
    using set_prune_dirs [of skips "filter is_dir entries"] by auto
  then have "size d < Suc (size_list size entries)"
    by (simp add: less_Suc_eq_le size_list_estimation')
  then show "((skips, path_join dirpath (entry_name d), d), (skips, dirpath, Dir n entries))
               \<in> measure (\<lambda>(skips, dirpath, t). size t)"
    by simp
qed

section \<open>\<open>init\<close>\<close>

text \<open>The body of the loop over \<open>files\<close> (lines 117-122).\<close>

definition init_file ::
  "string \<Rightarrow> string \<times> (string + nat) \<Rightarrow> nat \<times> nat \<times> 'k state \<Rightarrow> nat \<times> nat \<times> 'k state"
where
  "init_file dirpath = (\<lambda>(afile, sz) (total_size, count, st).
     case sz of
       Inr n \<Rightarrow> (total_size + n, count + 1, st)
     | Inl e \<Rightarrow> (total_size, count + 1, emit (Log_error e afile) st))"

fun init_files ::
  "string \<Rightarrow> (string \<times> (string + nat)) list \<Rightarrow> nat \<times> nat \<times> 'k state \<Rightarrow> nat \<times> nat \<times> 'k state"
where
  "init_files dirpath [] acc = acc"
| "init_files dirpath (f # files) acc = init_files dirpath files (init_file dirpath f acc)"

text \<open>The loop over \<open>os.walk(path)\<close> (lines 109-122).\<close>

fun init_walk ::
  "(string \<times> fsnode list \<times> (string \<times> (string + nat)) list) list
     \<Rightarrow> nat \<times> nat \<times> 'k state \<Rightarrow> nat \<times> nat \<times> 'k state"
where
  "init_walk [] acc = acc"
| "init_walk ((dirpath, dirs, files) # items) acc = init_walk items (init_files dirpath files acc)"

text \<open>
  \<open>readable\<close> is the integer \<open>total_size\<close> at first and a float after the first
  \<open>readable /= 1024.0\<close>. A float is modelled by the rational it is equal to.

  The integer becomes a float by rounding to 53 significant bits, to nearest, ties to
  even (\<open>floorlog 2 n\<close> is the number of bits of \<open>n\<close>); \<open>OverflowError\<close>, here
  \<open>None\<close>, when the result is not below \<open>2 ^ 1024\<close>.
\<close>

datatype pynum = PInt nat | PFloat rat

text \<open>\<open>n\<close> rounded to a multiple of \<open>2 ^ e\<close>, to nearest, ties to the even multiple.\<close>

definition round_half_even :: "nat \<Rightarrow> nat \<Rightarrow> nat" where
  "round_half_even e n =
     (let q = n div 2 ^ e;
          r = n mod 2 ^ e;
          h = 2 ^ (e - 1)
      in (if h < r \<or> (r = h \<and> odd q) then q + 1 else q) * 2 ^ e)"

definition float_of_nat :: "nat \<Rightarrow> rat option" where
  "float_of_nat n =
     (if n < 2 ^ 53 then Some (of_nat n)
      else
        let v = round_half_even (floorlog 2 n - 53) n
        in if 2 ^ 1024 \<le> v then None else Some (of_nat v))"

fun num_val :: "pynum \<Rightarrow> rat" where
  "num_val (PInt n) = of_nat n"
| "num_val (PFloat r) = r"

text \<open>
  \<open>readable / 1024.0\<close>. Dividing a float by a power of two is exact as long as the
  quotient is a normal number, which it is here: only values of at least 1024 are divided.
\<close>

fun div_1024 :: "pynum \<Rightarrow> rat option" where
  "div_1024 (PInt n) = (case float_of_nat n of None \<Rightarrow> None | Some r \<Rightarrow> Some (r / 1024))"
| "div_1024 (PFloat r) = Some (r / 1024)"

text \<open>
  The loop over the units (lines 125-129). When the list of units is used up the function
  body ends without a \<open>return\<close>, and the call returns \<open>None\<close>.
\<close>

fun init_units ::
  "'k externals \<Rightarrow> nat \<Rightarrow> pynum \<Rightarrow> string list \<Rightarrow> 'k state \<Rightarrow> nat option outcome \<times> 'k state"
where
  "init_units x count readable [] st = (Returns None, st)"
| "init_units x count readable (unit # units) st =
     (if num_val readable < 1024
      then (Returns (Some count),
            log_comment (str_of_nat count @ '' files, '' @ fmt_3_1f x (num_val readable)
                         @ '' '' @ unit) st)
      else (case div_1024 readable of
              None \<Rightarrow> (Raises ''OverflowError'', st)
            | Some r \<Rightarrow> init_units x count (PFloat r) units st))"

text \<open>\<open>init\<close> (lines 104-129); \<open>tree\<close> is what the file system holds at \<open>path\<close>.\<close>

definition init ::
  "'k externals \<Rightarrow> string \<Rightarrow> fsnode \<Rightarrow> 'k state \<Rightarrow> nat option outcome \<times> 'k state"
where
  "init x path tree st =
     (let st1 = log_comment ''initialization...'' st;
          (total_size, count, st2) = init_walk (walk (SKIP x) path tree) (0, 0, st1)
      in init_units x count (PInt total_size) [''bytes'', ''KiB'', ''MiB'', ''GiB'', ''TiB''] st2)"

section \<open>\<open>scan\<close>\<close>

text \<open>The body of the loop over \<open>files\<close> (lines 155-173).\<close>

definition scan_file ::
  "'k externals \<Rightarrow> nat \<Rightarrow> string \<Rightarrow> string \<times> (string + nat) \<Rightarrow> nat \<times> nat \<times> 'k state
     \<Rightarrow> nat \<times> nat \<times> 'k state"
where
  "scan_file x bar_blocksize dirpath = (\<lambda>(afile, sz) (scanned, bar_count, st).
     let apath = abspath x (path_join dirpath afile);
         st1 = (case infilename_search x (lower afile) of
                  Some g \<Rightarrow> emit (Log_secret g apath) st
                | None \<Rightarrow> st);
         (ftype, supported) = type_file x apath
     in if supported then
          if ftype \<in> set (ENCRYPTED x)
          then (scanned, bar_count, emit (Log_encrypted ftype afile) st1)
          else
            let st2 = emit (Do_file ftype apath) st1
            in if bar_blocksize \<le> bar_count + 1
               then (scanned + 1, 0, emit (Stdout_write ''='') st2)
               else (scanned + 1, bar_count + 1, st2)
        else (scanned, bar_count, st1))"

fun scan_files ::
  "'k externals \<Rightarrow> nat \<Rightarrow> string \<Rightarrow> (string \<times> (string + nat)) list \<Rightarrow> nat \<times> nat \<times> 'k state
     \<Rightarrow> nat \<times> nat \<times> 'k state"
where
  "scan_files x bs dirpath [] acc = acc"
| "scan_files x bs dirpath (f # files) acc = scan_files x bs dirpath files (scan_file x bs dirpath f acc)"

text \<open>The loop over \<open>os.walk(path)\<close> (lines 147-173).\<close>

fun scan_walk ::
  "'k externals \<Rightarrow> nat \<Rightarrow> (string \<times> fsnode list \<times> (string \<times> (string + nat)) list) list
     \<Rightarrow> nat \<times> nat \<times> 'k state \<Rightarrow> nat \<times> nat \<times> 'k state"
where
  "scan_walk x bs [] acc = acc"
| "scan_walk x bs ((dirpath, dirs, files) # items) acc =
     scan_walk x bs items (scan_files x bs dirpath files acc)"

text \<open>
  \<open>scan\<close> (lines 132-178). \<open>count\<close> is what \<open>init\<close> returned: with \<open>None\<close>, the
  division \<open>count/bar_width\<close> of line 144 raises \<open>TypeError\<close>.
\<close>

definition scan ::
  "'k externals \<Rightarrow> string \<Rightarrow> fsnode \<Rightarrow> nat option \<Rightarrow> 'k state \<Rightarrow> nat outcome \<times> 'k state"
where
  "scan x path tree count st =
     (let st1 = log_comment ''scanning files...'' st;
          bar_width = 32;
          st2 = emit (Stdout_write (''['' @ replicate (bar_width + 1) (CHR '' '') @ '']'')) st1;
          st3 = emit (Stdout_write (replicate (bar_width + 2) (CHR 0x08))) st2
      in case count of
           None \<Rightarrow> (Raises ''TypeError'', st3)
         | Some c \<Rightarrow>
             let (scanned, bar_count, st4) =
                    scan_walk x (c div bar_width) (walk (SKIP x) path tree) (0, 0, st3);
                 st5 = emit (Stdout_write [NL]) st4;
                 st6 = log_comment (str_of_nat scanned
                                    @ '' files supported have been processed'') st5
             in (Returns scanned, st6))"

section \<open>\<open>count_secrets\<close> and \<open>main\<close>\<close>

definition SECRET_TOKEN :: string where
  "SECRET_TOKEN = ''SECRET,''"

text \<open>
  \<open>count_secrets\<close> (lines 181-184); \<open>logs\<close> is the text read from the log file. The
  function has no \<open>return\<close> statement: the call returns \<open>None\<close>.
\<close>

definition count_secrets :: "string \<Rightarrow> 'k state \<Rightarrow> nat option outcome \<times> 'k state" where
  "count_secrets logs st =
     (let secrets = py_count SECRET_TOKEN logs
      in (Returns None,
          log_comment (str_of_nat secrets @ '' files or strings flagged as ''
                       @ [CHR 0x22] @ ''secret'' @ [CHR 0x22]) st))"

text \<open>Sequencing: a call that exits or raises ends the caller too.\<close>

definition and_then ::
  "'a outcome \<times> 's \<Rightarrow> ('a \<Rightarrow> 's \<Rightarrow> 'b outcome \<times> 's) \<Rightarrow> 'b outcome \<times> 's" where
  "and_then r f =
     (case r of
        (Returns v, st) \<Rightarrow> f v st
      | (Exits c, st) \<Rightarrow> (Exits c, st)
      | (Raises e, st) \<Rightarrow> (Raises e, st))"

text \<open>
  The last lines of \<open>main\<close> (lines 250-255): the hashes file (when one was named), the two
  passes over the tree, the tally, and \<open>bye\<close>.
\<close>

definition main_steps ::
  "'k externals \<Rightarrow> string \<Rightarrow> string \<Rightarrow> string \<Rightarrow> string \<Rightarrow> fsnode \<Rightarrow> 'k state
     \<Rightarrow> unit outcome \<times> 'k state"
where
  "main_steps x hashesfile pwd content path tree st =
     and_then (if hashesfile \<noteq> [] then get_hashes x hashesfile pwd content st
               else (Returns (), st))
       (\<lambda>_ st1. and_then (init x path tree st1)
          (\<lambda>count st2. and_then (scan x path tree count st2)
             (\<lambda>scanned st3. and_then (count_secrets (log_text x (trace st3)) st3)
                (\<lambda>_ st4. bye x st4))))"

section \<open>What \<open>get_hashes\<close> computes\<close>

text \<open>
  A hash line passes both tests of the loop when, stripped, it has twice \<open>HASH_BYTES\<close>
  characters and \<open>int(ahash, 16)\<close> accepts it. \<open>line_msgs\<close> is what the loop logs for a
  line: the length comment, the value comment, both, or nothing.
\<close>

definition line_ok :: "'k externals \<Rightarrow> string \<Rightarrow> bool" where
  "line_ok x line = (length (strip line) = 2 * HASH_BYTES x \<and> int16_ok x (strip line))"

definition line_msgs :: "'k externals \<Rightarrow> string \<Rightarrow> event list" where
  "line_msgs x line =
     (if length (strip line) \<noteq> 2 * HASH_BYTES x
      then [Log_comment (msg_hash_length (strip line))] else [])
     @ (if \<not> int16_ok x (strip line)
        then [Log_comment (msg_hash_value (strip line))] else [])"

text \<open>Several events appended to the trace at once.\<close>

definition add_events :: "event list \<Rightarrow> 'k state \<Rightarrow> 'k state" where
  "add_events evs st = st\<lparr>trace := trace st @ evs\<rparr>"

lemma add_events_Nil [simp]: "add_events [] st = st"
  by (simp add: add_events_def)

lemma add_events_add_events [simp]: "add_events evs (add_events evs' st) = add_events (evs' @ evs) st"
  by (simp add: add_events_def)

lemma emit_add_events: "emit e st = add_events [e] st"
  by (simp add: emit_def add_events_def)

lemma log_comment_add_events: "log_comment m st = add_events [Log_comment m] st"
  by (simp add: log_comment_def emit_add_events)

lemma check_line_eq:
  "check_line x line (fail, hashes, st) =
     (fail \<or> \<not> line_ok x line,
      if fail \<or> \<not> line_ok x line then hashes else hashes @ [strip line],
      add_events (line_msgs x line) st)"
  by (auto simp: check_line_def line_ok_def line_msgs_def Let_def log_comment_add_events)

lemma check_lines_eq:
  "check_lines x fin (fail, hashes, st) =
     (fail \<or> \<not> list_all (line_ok x) fin,
      hashes @ (if fail then [] else map strip (takeWhile (line_ok x) fin)),
      add_events (concat (map (line_msgs x) fin)) st)"
proof (induction fin arbitrary: fail hashes st)
  case Nil
  show ?case by simp
next
  case (Cons line fin)
  show ?case
    by (simp add: check_line_eq Cons.IH)
qed


text \<open>
  The three parts of the hashes file as \<open>get_hashes\<close> reads them: the first line and the
  second line, each without its trailing newlines, and the lines from the third on.
\<close>

definition regex_line :: "string \<Rightarrow> string" where
  "regex_line content = rstrip_nl (fst (readline (split_lines content)))"

definition second_line :: "string \<Rightarrow> string" where
  "second_line content = rstrip_nl (fst (readline (snd (readline (split_lines content)))))"

definition hash_lines :: "string \<Rightarrow> string list" where
  "hash_lines content = snd (readline (snd (readline (split_lines content))))"

text \<open>The first comment of \<open>get_hashes\<close>, and the line \<open>bye\<close> prints.\<close>

definition msg_verifying :: "string \<Rightarrow> event" where
  "msg_verifying hashesfile = Log_comment (''verifying hashes file '' @ hashesfile @ ''...'')"

definition bye_event :: "'k externals \<Rightarrow> event" where
  "bye_event x = Print (''thank you for using '' @ PROGRAM x @ '', please report bugs'')"

lemma bye_eq: "bye x st = (Exits 1, add_events [bye_event x] st)"
  by (simp add: bye_def bye_event_def emit_add_events)

lemma get_hashes_checks_eq:
  assumes "key_derivation x pwd salt = (key, averifier, salt')"
  shows "get_hashes_checks x pwd regex salt verifier fin st =
     (verifier \<noteq> averifier \<or> \<not> re_compile_ok x regex \<or> \<not> list_all (line_ok x) fin,
      if verifier \<noteq> averifier \<or> \<not> re_compile_ok x regex then []
      else map strip (takeWhile (line_ok x) fin),
      add_events
        ((if verifier \<noteq> averifier
          then [Log_comment ''verifier does not match (incorrect password?)''] else [])
         @ (if \<not> re_compile_ok x regex then [Log_comment ''invalid regex''] else [])
         @ concat (map (line_msgs x) fin))
        (if verifier \<noteq> averifier then st
         else st\<lparr>HASH_KEY := Derived key, HASH_REGEX := regex\<rparr>))"
  using assms
  by (simp add: get_hashes_checks_def check_lines_eq log_comment_add_events)

lemma get_hashes_split:
  assumes "split_str (CHR '','') (second_line content) = [salt, verifier]"
  shows "get_hashes x hashesfile pwd content st =
     get_hashes_finish x
       (get_hashes_checks x pwd (regex_line content) salt verifier (hash_lines content)
          (add_events [msg_verifying hashesfile] st))"
  using assms
  by (simp add: get_hashes_def Let_def split_beta second_line_def regex_line_def
      hash_lines_def log_comment_add_events msg_verifying_def)

lemma get_hashes_nosplit:
  assumes "length (split_str (CHR '','') (second_line content)) \<noteq> 2"
  shows "get_hashes x hashesfile pwd content st =
     (Exits 1, add_events [msg_verifying hashesfile,
                           Log_comment ''failed to extract verifier and salt'',
                           bye_event x] st)"
  using assms
  by (auto simp: get_hashes_def Let_def split_beta second_line_def
      log_comment_add_events msg_verifying_def bye_eq split: list.splits)

section \<open>Example inputs\<close>

text \<open>
  A concrete environment, used to evaluate the model on examples. Its key derivation gives
  the verifier \<open>pwd @ salt\<close>; the only regex it takes as invalid is \<open>(\<close>, an unbalanced
  parenthesis; it takes as hexadecimal the non-empty strings of hexadecimal digits (the
  strings the examples use as malformed, \<open>zz\<close> and \<open>00ffx\<close>, are not numbers in base 16
  for Python either); it classifies \<open>/r/secrets.gpg\<close> as encrypted, \<open>/r/id_rsa\<close> as
  supported and everything else as unsupported.
\<close>

definition is_hex_digit :: "char \<Rightarrow> bool" where
  "is_hex_digit c = (c \<in> set ''0123456789abcdefABCDEF'')"

definition demo :: "nat externals" where
  "demo = \<lparr>
     key_derivation = (\<lambda>pwd salt. (length pwd, pwd @ salt, salt)),
     HASH_BYTES = 2,
     re_compile_ok = (\<lambda>r. r \<noteq> ''(''),
     int16_ok = (\<lambda>s. s \<noteq> [] \<and> list_all is_hex_digit s),
     PROGRAM = ''blueflower'',
     SKIP = [''.git'', ''.svn''],
     ENCRYPTED = [''gpg''],
     infilename_search = (\<lambda>s. if s = ''id_rsa'' then Some ''id_rsa'' else None),
     type_file = (\<lambda>p. if p = ''/r/secrets.gpg'' then (''gpg'', True)
                      else if p = ''/r/id_rsa'' then (''text'', True)
                      else (''unknown'', False)),
     abspath = (\<lambda>p. p),
     fmt_3_1f = (\<lambda>r. str_of_nat (nat \<lfloor>r\<rfloor>) @ ''.'' @ str_of_nat (nat \<lfloor>r * 10\<rfloor> mod 10)),
     log_text = (\<lambda>t. concat (map (\<lambda>e. case e of Log_secret g p \<Rightarrow> ''SECRET, '' @ g @ '' '' @ p @ [NL] | _ \<Rightarrow> ''#'' @ [NL]) t))
   \<rparr>"

text \<open>
  Everything the three checks log, in order: the verifier comment (when \<open>mismatch\<close>), the
  regex comment, and the comments for the hash lines. \<open>msg_counts\<close> is the comment with the
  two counts.
\<close>

definition check_msgs :: "'k externals \<Rightarrow> bool \<Rightarrow> string \<Rightarrow> string list \<Rightarrow> event list" where
  "check_msgs x mismatch regex fin =
     (if mismatch then [Log_comment ''verifier does not match (incorrect password?)''] else [])
     @ (if \<not> re_compile_ok x regex then [Log_comment ''invalid regex''] else [])
     @ concat (map (line_msgs x) fin)"

definition msg_counts :: "nat \<Rightarrow> nat \<Rightarrow> event" where
  "msg_counts raw uniq =
     Log_comment (str_of_nat raw @ '' hashes read, '' @ str_of_nat uniq @ '' uniques'')"

lemma add_events_simps [simp]:
  "HASHES (add_events evs st) = HASHES st"
  "HASH_KEY (add_events evs st) = HASH_KEY st"
  "HASH_REGEX (add_events evs st) = HASH_REGEX st"
  "trace (add_events evs st) = trace st @ evs"
  by (simp_all add: add_events_def)

lemma add_events_update:
  "(add_events evs st)\<lparr>HASHES := h\<rparr> = add_events evs (st\<lparr>HASHES := h\<rparr>)"
  by (simp add: add_events_def)

lemma get_hashes_failure:
  assumes "split_str (CHR '','') (second_line content) = [salt, verifier]"
      and "key_derivation x pwd salt = (key, averifier, salt')"
      and "verifier \<noteq> averifier \<or> \<not> re_compile_ok x (regex_line content)
           \<or> \<not> list_all (line_ok x) (hash_lines content)"
  shows "get_hashes x hashesfile pwd content st =
     (Exits 1,
      add_events
        ([msg_verifying hashesfile]
         @ check_msgs x (verifier \<noteq> averifier) (regex_line content) (hash_lines content)
         @ [Log_comment ''hashes file failed to verify, aborting...'', bye_event x])
        (if verifier \<noteq> averifier then st
         else st\<lparr>HASH_KEY := Derived key, HASH_REGEX := regex_line content\<rparr>))"
  using assms(3)
  by (simp add: get_hashes_split [OF assms(1)] get_hashes_checks_eq [OF assms(2)]
      get_hashes_finish_def bye_eq log_comment_add_events check_msgs_def)

lemma get_hashes_success:
  assumes "split_str (CHR '','') (second_line content) = [salt, verifier]"
      and "key_derivation x pwd salt = (key, averifier, salt')"
      and "verifier = averifier" and "re_compile_ok x (regex_line content)"
      and "list_all (line_ok x) (hash_lines content)"
  shows "get_hashes x hashesfile pwd content st =
     (Returns (),
      add_events
        [msg_verifying hashesfile,
         msg_counts (length (hash_lines content)) (card (set (map strip (hash_lines content)))),
         Log_comment (''using regex '' @ regex_line content),
         Log_comment ''hashes file successfully verified'']
        (st\<lparr>HASH_KEY := Derived key, HASH_REGEX := regex_line content,
            HASHES := set (map strip (hash_lines content))\<rparr>))"
proof -
  have "concat (map (line_msgs x) fin) = []" if "list_all (line_ok x) fin" for fin
    using that by (induction fin) (auto simp: line_ok_def line_msgs_def)
  note no_msgs = this [OF assms(5)]
  have tw: "takeWhile (line_ok x) (hash_lines content) = hash_lines content"
    using assms(5) by (simp add: list_all_iff)
  show ?thesis
    using assms(3,4,5)
    by (simp add: get_hashes_split [OF assms(1)] get_hashes_checks_eq [OF assms(2)]
        get_hashes_finish_def log_comment_add_events tw no_msgs Let_def msg_counts_def
        add_events_def)
qed


text \<open>
  Hashes files for the password \<open>pw\<close> (salt \<open>s\<close>, verifier \<open>pws\<close>, two bytes per hash):
  a valid one with a repeated hash, one with an invalid regex, one with a malformed hash
  line among valid ones, one with a wrong verifier, an invalid regex and malformed lines,
  and one whose second line has no comma. Then a small tree with an excluded directory.
\<close>

definition ok_content :: string where
  "ok_content = ''a+\<newline>s,pws\<newline>abcd\<newline>00ff\<newline>abcd\<newline>''"

definition bad_regex_content :: string where
  "bad_regex_content = ''(\<newline>s,pws\<newline>abcd\<newline>''"

definition bad_line_content :: string where
  "bad_line_content = ''a+\<newline>s,pws\<newline>abcd\<newline>zz\<newline>00ff\<newline>''"

definition all_bad_content :: string where
  "all_bad_content = ''(\<newline>s,nope\<newline>abcd\<newline>zz\<newline>00ffx\<newline>''"

definition no_split_content :: string where
  "no_split_content = ''a+\<newline>spws\<newline>abcd\<newline>''"

definition demo_tree :: fsnode where
  "demo_tree = Dir ''r'' [File ''readme.txt'' (Inr 10), File ''id_rsa'' (Inr 20),
                          File ''secrets.gpg'' (Inr 30), Dir ''.git'' [File ''config'' (Inr 5)]]"

lemmas demo_eval = NL_def readline_def rstrip_nl_def strip_def py_isspace_def demo_def
  is_hex_digit_def regex_line_def second_line_def hash_lines_def line_ok_def line_msgs_def
  initial_state_def msg_hash_length_def msg_hash_value_def str_of_nat.simps digit_char_def
  msg_verifying_def bye_event_def check_msgs_def msg_counts_def

section \<open>Claims about \<open>get_hashes\<close>\<close>

text \<open>
  C1. The claim: the key, the regex and the hash set are committed only if the whole
  validation succeeds; on any failure none of the three is committed.

  The code assigns \<open>HASH_KEY\<close> and \<open>HASH_REGEX\<close> at lines 63-64, as soon as the
  verifier matches, before the regex and the hash lines are looked at; the comment at
  line 97 (\<open>record hashes and key\<close>) places the recording of the key after the last
  failure check. With the right password and a regex that does not compile, the call ends
  through \<open>bye\<close> with the key and the regex already stored in the globals.
\<close>
theorem get_hashes_sets_key_before_validation:
  "get_hashes demo ''h.txt'' ''pw'' bad_regex_content initial_state =
     (Exits 1,
      \<lparr>HASHES = {}, HASH_KEY = Derived 2, HASH_REGEX = ''('',
       trace = [Log_comment ''verifying hashes file h.txt...'',
                Log_comment ''invalid regex'',
                Log_comment ''hashes file failed to verify, aborting...'',
                Print ''thank you for using blueflower, please report bugs'']\<rparr>)"
  unfolding bad_regex_content_def by code_simp

text \<open>
  The same for every input: once the verifier matches, the key and the regex are in the
  globals when \<open>get_hashes\<close> ends, whether or not the other checks pass.
\<close>

lemma get_hashes_key_set_on_verifier_match:
  assumes "split_str (CHR '','') (second_line content) = [salt, verifier]"
      and "key_derivation x pwd salt = (key, verifier, salt')"
  shows "HASH_KEY (snd (get_hashes x hashesfile pwd content st)) = Derived key
       \<and> HASH_REGEX (snd (get_hashes x hashesfile pwd content st)) = regex_line content"
proof (cases "\<not> re_compile_ok x (regex_line content)
              \<or> \<not> list_all (line_ok x) (hash_lines content)")
  case True
  then have "verifier \<noteq> verifier \<or> \<not> re_compile_ok x (regex_line content)
             \<or> \<not> list_all (line_ok x) (hash_lines content)"
    by simp
  then show ?thesis
    using get_hashes_failure [OF assms, of hashesfile st] by simp
next
  case False
  then show ?thesis
    using get_hashes_success [OF assms refl, of hashesfile st] by simp
qed

text \<open>
  C2. The claim: every hash line that looks valid is buffered, whatever failure has been
  recorded before. It fails: line 89 appends only under \<open>if not fail\<close>, and \<open>fail\<close>
  is never reset. Below, the verifier does not match and the one hash line, which has
  the right length and is hexadecimal, is not buffered.
\<close>
theorem valid_line_after_failure_not_buffered:
  "line_ok demo ''abcd\<newline>''
   \<and> fst (snd (get_hashes_checks demo ''pw'' ''a+'' ''s'' ''nope'' [''abcd\<newline>'']
                  initial_state)) = []"
  by (simp add: get_hashes_checks_def check_line_def log_comment_def emit_def demo_eval)

text \<open>
  C2, amended. The buffered list is the valid-looking lines that come before the first
  failure: it is empty when the verifier did not match or the regex did not compile, and
  otherwise it is the stripped lines up to the first malformed one.
\<close>

theorem buffered_hashes_stop_at_first_failure:
  assumes "key_derivation x pwd salt = (key, averifier, salt')"
  shows "fst (snd (get_hashes_checks x pwd regex salt verifier fin st)) =
           (if verifier \<noteq> averifier \<or> \<not> re_compile_ok x regex then []
            else map strip (takeWhile (line_ok x) fin))"
  by (simp add: get_hashes_checks_eq [OF assms])

theorem buffered_hashes_stop_at_first_failure_witness:
  "key_derivation demo ''pw'' ''s'' = (2, ''pws'', ''s'')
   \<and> fst (snd (get_hashes_checks demo ''pw'' ''a+'' ''s'' ''pws''
                  [''abcd\<newline>'', ''zz\<newline>'', ''00ff\<newline>''] initial_state)) = [''abcd'']"
proof -
  have kd: "key_derivation demo ''pw'' ''s'' = (2, ''pws'', ''s'')"
    by (simp add: demo_def)
  show ?thesis
    using buffered_hashes_stop_at_first_failure [OF kd, of "''a+''" "''pws''"
        "[''abcd\<newline>'', ''zz\<newline>'', ''00ff\<newline>'']" initial_state]
    by (simp add: demo_eval)
qed

text \<open>
  C4. When the stored verifier differs from the computed one and the regex does not
  compile, both failures are logged, every malformed hash line is reported (its length,
  its value, or both), in file order, and only then the call logs the abort and ends the
  process through \<open>bye\<close>.
\<close>
theorem get_hashes_accumulates_failures:
  assumes "split_str (CHR '','') (second_line content) = [salt, verifier]"
      and "key_derivation x pwd salt = (key, averifier, salt')"
      and "verifier \<noteq> averifier"
      and "\<not> re_compile_ok x (regex_line content)"
  shows "fst (get_hashes x hashesfile pwd content st) = Exits 1
       \<and> trace (snd (get_hashes x hashesfile pwd content st)) =
           trace st
           @ [msg_verifying hashesfile,
              Log_comment ''verifier does not match (incorrect password?)'',
              Log_comment ''invalid regex'']
           @ concat (map (line_msgs x) (hash_lines content))
           @ [Log_comment ''hashes file failed to verify, aborting...'', bye_event x]
       \<and> (\<forall>line \<in> set (hash_lines content).
             length (strip line) \<noteq> 2 * HASH_BYTES x \<longrightarrow>
               Log_comment (msg_hash_length (strip line))
                 \<in> set (trace (snd (get_hashes x hashesfile pwd content st))))
       \<and> (\<forall>line \<in> set (hash_lines content).
             \<not> int16_ok x (strip line) \<longrightarrow>
               Log_comment (msg_hash_value (strip line))
                 \<in> set (trace (snd (get_hashes x hashesfile pwd content st))))"
proof -
  have eq: "get_hashes x hashesfile pwd content st =
     (Exits 1,
      add_events
        ([msg_verifying hashesfile]
         @ check_msgs x True (regex_line content) (hash_lines content)
         @ [Log_comment ''hashes file failed to verify, aborting...'', bye_event x]) st)"
    using get_hashes_failure [OF assms(1,2), of hashesfile st] assms(3,4) by simp
  have len: "Log_comment (msg_hash_length (strip line)) \<in> set (line_msgs x line)"
    if "length (strip line) \<noteq> 2 * HASH_BYTES x" for line
    using that by (simp add: line_msgs_def)
  have val: "Log_comment (msg_hash_value (strip line)) \<in> set (line_msgs x line)"
    if "\<not> int16_ok x (strip line)" for line
    using that by (simp add: line_msgs_def)
  show ?thesis
    using assms(4) len val by (auto simp: eq check_msgs_def)
qed

theorem get_hashes_accumulates_failures_witness:
  "fst (get_hashes demo ''h.txt'' ''pw'' all_bad_content initial_state) = Exits 1
   \<and> trace (snd (get_hashes demo ''h.txt'' ''pw'' all_bad_content initial_state)) =
       [Log_comment ''verifying hashes file h.txt...'',
        Log_comment ''verifier does not match (incorrect password?)'',
        Log_comment ''invalid regex'',
        Log_comment ''invalid hash length (2 bytes): zz'',
        Log_comment ''invalid hash value (should be hex string): zz'',
        Log_comment ''invalid hash length (5 bytes): 00ffx'',
        Log_comment ''invalid hash value (should be hex string): 00ffx'',
        Log_comment ''hashes file failed to verify, aborting...'',
        Print ''thank you for using blueflower, please report bugs'']"
proof -
  have sl: "split_lines all_bad_content =
      [''(\<newline>'', ''s,nope\<newline>'', ''abcd\<newline>'', ''zz\<newline>'', ''00ffx\<newline>'']"
    by (simp add: all_bad_content_def NL_def)
  have split: "split_str (CHR '','') (second_line all_bad_content) = [''s'', ''nope'']"
    by (simp add: sl demo_eval)
  have kd: "key_derivation demo ''pw'' ''s'' = (2, ''pws'', ''s'')"
    by (simp add: demo_def)
  have ne: "''nope'' \<noteq> ''pws''" by simp
  have re: "\<not> re_compile_ok demo (regex_line all_bad_content)"
    by (simp add: sl demo_eval)
  show ?thesis
    using get_hashes_accumulates_failures [OF split kd ne re, of "''h.txt''" initial_state]
    by (simp add: sl demo_eval)
qed

text \<open>
  C5. When the second line does not split into exactly two fields, \<open>get_hashes\<close> logs
  the parse failure and ends the process at once: the state gains three events and
  nothing else changes, whatever the key derivation, the regex and the hash lines are.
  In every other case nothing is skipped: the trace holds the outcome of the verifier
  test, of the regex test and of the test of every hash line.
\<close>
theorem unsplittable_second_line_is_the_only_short_circuit:
  "(length (split_str (CHR '','') (second_line content)) \<noteq> 2 \<longrightarrow>
      get_hashes x hashesfile pwd content st =
        (Exits 1, add_events [msg_verifying hashesfile,
                              Log_comment ''failed to extract verifier and salt'',
                              bye_event x] st))
   \<and> (\<forall>salt verifier key averifier salt'.
        split_str (CHR '','') (second_line content) = [salt, verifier] \<longrightarrow>
        key_derivation x pwd salt = (key, averifier, salt') \<longrightarrow>
        (\<exists>rest. trace (snd (get_hashes x hashesfile pwd content st)) =
                  trace st @ [msg_verifying hashesfile]
                  @ check_msgs x (verifier \<noteq> averifier) (regex_line content)
                      (hash_lines content)
                  @ rest))"
proof (intro conjI allI impI)
  assume "length (split_str (CHR '','') (second_line content)) \<noteq> 2"
  then show "get_hashes x hashesfile pwd content st =
        (Exits 1, add_events [msg_verifying hashesfile,
                              Log_comment ''failed to extract verifier and salt'',
                              bye_event x] st)"
    by (rule get_hashes_nosplit)
next
  fix salt verifier key averifier salt'
  assume split: "split_str (CHR '','') (second_line content) = [salt, verifier]"
     and kd: "key_derivation x pwd salt = (key, averifier, salt')"
  let ?fail = "verifier \<noteq> averifier \<or> \<not> re_compile_ok x (regex_line content)
               \<or> \<not> list_all (line_ok x) (hash_lines content)"
  let ?msgs = "check_msgs x (verifier \<noteq> averifier) (regex_line content) (hash_lines content)"
  show "\<exists>rest. trace (snd (get_hashes x hashesfile pwd content st)) =
                  trace st @ [msg_verifying hashesfile] @ ?msgs @ rest"
  proof (cases ?fail)
    case True
    show ?thesis
      using get_hashes_failure [OF split kd True, of hashesfile st] by simp
  next
    case False
    then have ok: "verifier = averifier" "re_compile_ok x (regex_line content)"
      "list_all (line_ok x) (hash_lines content)" by auto
    have "concat (map (line_msgs x) fin) = []" if "list_all (line_ok x) fin" for fin
      using that by (induction fin) (auto simp: line_ok_def line_msgs_def)
    then have "?msgs = []"
      using ok by (simp add: check_msgs_def)
    then show ?thesis
      using get_hashes_success [OF split kd ok, of hashesfile st] by simp
  qed
qed

theorem unsplittable_second_line_is_the_only_short_circuit_witness:
  "get_hashes demo ''h.txt'' ''pw'' no_split_content initial_state =
     (Exits 1,
      \<lparr>HASHES = {}, HASH_KEY = KInt 0, HASH_REGEX = [],
       trace = [Log_comment ''verifying hashes file h.txt...'',
                Log_comment ''failed to extract verifier and salt'',
                Print ''thank you for using blueflower, please report bugs'']\<rparr>)
   \<and> (\<exists>rest. trace (snd (get_hashes demo ''h.txt'' ''pw'' all_bad_content initial_state)) =
         [Log_comment ''verifying hashes file h.txt...'',
          Log_comment ''verifier does not match (incorrect password?)'',
          Log_comment ''invalid regex'',
          Log_comment ''invalid hash length (2 bytes): zz'',
          Log_comment ''invalid hash value (should be hex string): zz'',
          Log_comment ''invalid hash length (5 bytes): 00ffx'',
          Log_comment ''invalid hash value (should be hex string): 00ffx''] @ rest)"
proof -
  have sl1: "split_lines no_split_content = [''a+\<newline>'', ''spws\<newline>'', ''abcd\<newline>'']"
    by (simp add: no_split_content_def NL_def)
  have nosplit: "length (split_str (CHR '','') (second_line no_split_content)) \<noteq> 2"
    by (simp add: sl1 demo_eval)
  have sl2: "split_lines all_bad_content =
      [''(\<newline>'', ''s,nope\<newline>'', ''abcd\<newline>'', ''zz\<newline>'', ''00ffx\<newline>'']"
    by (simp add: all_bad_content_def NL_def)
  have split: "split_str (CHR '','') (second_line all_bad_content) = [''s'', ''nope'']"
    by (simp add: sl2 demo_eval)
  have kd: "key_derivation demo ''pw'' ''s'' = (2, ''pws'', ''s'')"
    by (simp add: demo_def)
  note thm1 = unsplittable_second_line_is_the_only_short_circuit
                [of no_split_content demo "''h.txt''" "''pw''" initial_state]
  note thm2 = unsplittable_second_line_is_the_only_short_circuit
                [of all_bad_content demo "''h.txt''" "''pw''" initial_state]
  have a: "get_hashes demo ''h.txt'' ''pw'' no_split_content initial_state =
        (Exits 1, add_events [msg_verifying ''h.txt'',
                              Log_comment ''failed to extract verifier and salt'',
                              bye_event demo] initial_state)"
    using thm1 nosplit by blast
  have b: "\<exists>rest. trace (snd (get_hashes demo ''h.txt'' ''pw'' all_bad_content initial_state)) =
                  trace (initial_state :: nat state) @ [msg_verifying ''h.txt'']
                  @ check_msgs demo (''nope'' \<noteq> ''pws'') (regex_line all_bad_content)
                      (hash_lines all_bad_content)
                  @ rest"
    using thm2 [THEN conjunct2, rule_format, OF split kd] .
  show ?thesis
    using a b by (simp add: sl2 demo_eval add_events_def)
qed

text \<open>
  C6. When \<open>get_hashes\<close> returns, \<open>HASHES\<close> is the set of the stripped hash lines; its
  size is the number of distinct ones, at most the number of lines and smaller when a
  line is repeated; the log gains the line with both counts, and no event mentions the
  duplicates.
\<close>
theorem get_hashes_counts_unique_hashes:
  assumes "get_hashes x hashesfile pwd content st = (Returns (), st')"
  shows "HASHES st' = set (map strip (hash_lines content))
       \<and> card (HASHES st') = length (remdups (map strip (hash_lines content)))
       \<and> card (HASHES st') \<le> length (hash_lines content)
       \<and> (\<not> distinct (map strip (hash_lines content)) \<longrightarrow>
            card (HASHES st') < length (hash_lines content))
       \<and> trace st' =
           trace st
           @ [msg_verifying hashesfile,
              msg_counts (length (hash_lines content)) (card (HASHES st')),
              Log_comment (''using regex '' @ regex_line content),
              Log_comment ''hashes file successfully verified'']"
proof -
  let ?fs = "split_str (CHR '','') (second_line content)"
  have "length ?fs = 2"
    using get_hashes_nosplit [of content x hashesfile pwd st] assms by auto
  then obtain salt verifier where split: "?fs = [salt, verifier]"
    by (auto simp: length_Suc_conv numeral_2_eq_2)
  obtain key averifier salt' where kd: "key_derivation x pwd salt = (key, averifier, salt')"
    by (cases "key_derivation x pwd salt") auto
  let ?fail = "verifier \<noteq> averifier \<or> \<not> re_compile_ok x (regex_line content)
               \<or> \<not> list_all (line_ok x) (hash_lines content)"
  have "\<not> ?fail"
    using get_hashes_failure [OF split kd, of hashesfile st] assms by auto
  then have ok: "verifier = averifier" "re_compile_ok x (regex_line content)"
    "list_all (line_ok x) (hash_lines content)" by auto
  let ?hs = "map strip (hash_lines content)"
  have st': "st' = add_events
        [msg_verifying hashesfile,
         msg_counts (length (hash_lines content)) (card (set ?hs)),
         Log_comment (''using regex '' @ regex_line content),
         Log_comment ''hashes file successfully verified'']
        (st\<lparr>HASH_KEY := Derived key, HASH_REGEX := regex_line content, HASHES := set ?hs\<rparr>)"
    using get_hashes_success [OF split kd ok, of hashesfile st] assms by simp
  have H: "HASHES st' = set ?hs" by (simp add: st')
  have c1: "card (set ?hs) = length (remdups ?hs)"
    by (rule card_set)
  have c2: "card (set ?hs) \<le> length (hash_lines content)"
    using card_length [of ?hs] by simp
  have c3: "card (set ?hs) < length (hash_lines content)" if "\<not> distinct ?hs"
  proof -
    have "card (set ?hs) \<noteq> length ?hs"
      using that card_distinct [of ?hs] by blast
    with c2 show ?thesis by simp
  qed
  show ?thesis
    unfolding H using c1 c2 c3 by (simp add: st')
qed

theorem get_hashes_counts_unique_hashes_witness:
  "HASHES (snd (get_hashes demo ''h.txt'' ''pw'' ok_content initial_state)) = {''abcd'', ''00ff''}
   \<and> card (HASHES (snd (get_hashes demo ''h.txt'' ''pw'' ok_content initial_state))) = 2
   \<and> length (hash_lines ok_content) = 3
   \<and> trace (snd (get_hashes demo ''h.txt'' ''pw'' ok_content initial_state)) =
       [Log_comment ''verifying hashes file h.txt...'',
        Log_comment ''3 hashes read, 2 uniques'',
        Log_comment ''using regex a+'',
        Log_comment ''hashes file successfully verified'']"
proof -
  have sl: "split_lines ok_content =
      [''a+\<newline>'', ''s,pws\<newline>'', ''abcd\<newline>'', ''00ff\<newline>'', ''abcd\<newline>'']"
    by (simp add: ok_content_def NL_def)
  have run: "get_hashes demo ''h.txt'' ''pw'' ok_content initial_state =
      (Returns (),
       \<lparr>HASHES = {''abcd'', ''00ff''}, HASH_KEY = Derived 2, HASH_REGEX = ''a+'',
        trace = [Log_comment ''verifying hashes file h.txt...'',
                 Log_comment ''3 hashes read, 2 uniques'',
                 Log_comment ''using regex a+'',
                 Log_comment ''hashes file successfully verified'']\<rparr>)"
    unfolding ok_content_def by code_simp
  show ?thesis
    using get_hashes_counts_unique_hashes [OF run]
    by (simp add: run sl hash_lines_def readline_def strip_def py_isspace_def card_insert_if)
qed

section \<open>What \<open>init\<close> computes\<close>

text \<open>
  The conversion of an integer to a float is exact below \<open>2 ^ 53\<close>, never gives less
  than \<open>2 ^ 53\<close> from there on, and succeeds below \<open>2 ^ 1024 - 2 ^ 970\<close>.
\<close>

lemma float_of_nat_small: "n < 2 ^ 53 \<Longrightarrow> float_of_nat n = Some (of_nat n)"
  by (simp add: float_of_nat_def)

lemma float_parts:
  fixes n :: nat
  assumes big: "2 ^ 53 \<le> n"
  defines "e \<equiv> floorlog 2 n - 53"
  shows "1 \<le> e" and "floorlog 2 n = 53 + e"
    and "(2::nat) ^ 52 \<le> n div 2 ^ e" and "n div 2 ^ e < (2::nat) ^ 53"
proof -
  have pos: "0 < n" using big by (simp add: less_le_trans [of 0 "2 ^ 53"])
  have L: "Suc 53 \<le> floorlog 2 n"
    using big by (intro floorlog_ge_SucI) auto
  show e1: "1 \<le> e" using L by (simp add: e_def)
  show Le: "floorlog 2 n = 53 + e" using L by (simp add: e_def)
  have lo: "(2::nat) ^ (floorlog 2 n - 1) \<le> n" and hi: "n < 2 ^ floorlog 2 n"
    using floorlog_bounds [of n 2] pos by auto
  have "floorlog 2 n - 1 = 52 + e" using Le by simp
  then have "(2::nat) ^ 52 * 2 ^ e \<le> n" using lo by (simp add: power_add)
  then show "(2::nat) ^ 52 \<le> n div 2 ^ e"
    by (simp add: less_eq_div_iff_mult_less_eq)
  have "n < (2::nat) ^ 53 * 2 ^ e" using hi Le by (simp add: power_add)
  then show "n div 2 ^ e < (2::nat) ^ 53"
    by (simp add: less_mult_imp_div_less)
qed

lemma round_half_even_cases:
  "round_half_even e n = n div 2 ^ e * 2 ^ e
   \<or> (round_half_even e n = (n div 2 ^ e + 1) * 2 ^ e \<and> 2 ^ (e - 1) \<le> n mod 2 ^ e)"
  by (auto simp: round_half_even_def Let_def)

lemma float_of_nat_big_eq:
  assumes "2 ^ 53 \<le> n"
  shows "float_of_nat n =
    (if 2 ^ 1024 \<le> round_half_even (floorlog 2 n - 53) n then None
     else Some (of_nat (round_half_even (floorlog 2 n - 53) n)))"
  using assms unfolding float_of_nat_def Let_def by (simp only: not_less [symmetric] if_False)

lemma float_of_nat_big:
  assumes big: "2 ^ 53 \<le> n" and f: "float_of_nat n = Some r"
  shows "2 ^ 53 \<le> r"
proof -
  define e where "e = floorlog 2 n - 53"
  define v where "v = round_half_even e n"
  have e1: "1 \<le> e" and q52: "(2::nat) ^ 52 \<le> n div 2 ^ e"
    using float_parts [OF big] by (simp_all add: e_def)
  have r: "r = of_nat v"
    using f unfolding float_of_nat_big_eq [OF big] e_def [symmetric] v_def [symmetric]
    by (simp split: if_splits)
  have "n div 2 ^ e * 2 ^ e \<le> v"
    using round_half_even_cases [of e n] unfolding v_def by auto
  moreover have "(2::nat) ^ 1 \<le> 2 ^ e" using e1 by (intro power_increasing) auto
  then have "(2::nat) ^ 52 * 2 ^ 1 \<le> n div 2 ^ e * 2 ^ e" using q52 by (intro mult_le_mono)
  ultimately have "(2::nat) ^ 53 \<le> v" by simp
  then have "(of_nat ((2::nat) ^ 53) :: rat) \<le> of_nat v"
    by (rule of_nat_mono)
  then show ?thesis by (simp add: r)
qed

lemma float_of_nat_defined:
  assumes bound: "n < 2 ^ 1024 - 2 ^ 970"
  shows "\<exists>r. float_of_nat n = Some r"
proof (cases "n < 2 ^ 53")
  case True
  then show ?thesis by (simp add: float_of_nat_small)
next
  case False
  then have big: "2 ^ 53 \<le> n" by simp
  define e where "e = floorlog 2 n - 53"
  define q where "q = n div 2 ^ e"
  define v where "v = round_half_even e n"
  have e1: "1 \<le> e" and Le: "floorlog 2 n = 53 + e" and q53: "q < 2 ^ 53"
    using float_parts [OF big] by (simp_all add: e_def q_def)
  have qn: "q * 2 ^ e \<le> n" unfolding q_def by (rule div_times_less_eq_dividend)
  have n1024: "n < 2 ^ 1024" using bound by simp
  have "floorlog 2 n \<le> 1024" using n1024 by (intro floorlog_leI) auto
  then have e971: "e \<le> 971" using Le by simp
  have small: "v < 2 ^ 1024"
    using round_half_even_cases [of e n, folded v_def q_def]
  proof (elim disjE conjE)
    assume "v = q * 2 ^ e"
    then show ?thesis using qn n1024 by simp
  next
    assume v: "v = (q + 1) * 2 ^ e" and half: "2 ^ (e - 1) \<le> n mod 2 ^ e"
    show ?thesis
    proof (cases "e = 971")
      case True
      have "n = q * 2 ^ e + n mod 2 ^ e" unfolding q_def by (simp only: div_mult_mod_eq)
      then have "q * 2 ^ 971 + 2 ^ 970 \<le> n" using half True by simp
      then have "q * 2 ^ 971 + 2 ^ 970 + 2 ^ 970 < 2 ^ 1024" using bound by simp
      then have "q * 2 ^ 971 + 2 ^ 971 < 2 ^ 1024" by simp
      then show ?thesis by (simp add: v True algebra_simps)
    next
      case False
      then have "e \<le> 970" using e971 by simp
      moreover have "q + 1 \<le> 2 ^ 53" using q53 by simp
      ultimately have "(q + 1) * 2 ^ e \<le> 2 ^ 53 * (2::nat) ^ 970"
        by (intro mult_le_mono power_increasing) auto
      then show ?thesis by (simp add: v)
    qed
  qed
  show ?thesis
    unfolding float_of_nat_big_eq [OF big] e_def [symmetric] v_def [symmetric]
    using small by (simp only: not_le [symmetric] if_False) simp
qed

text \<open>
  The files a pass enumerates, in order, each with the \<open>root\<close> it was found under; the
  size each adds to \<open>total_size\<close> and the error each logs.
\<close>

definition walk_files ::
  "(string \<times> fsnode list \<times> (string \<times> (string + nat)) list) list
     \<Rightarrow> (string \<times> string \<times> (string + nat)) list" where
  "walk_files items = concat (map (\<lambda>(dirpath, dirs, files). map (Pair dirpath) files) items)"

definition enumerated ::
  "'k externals \<Rightarrow> string \<Rightarrow> fsnode \<Rightarrow> (string \<times> string \<times> (string + nat)) list" where
  "enumerated x path tree = walk_files (walk (SKIP x) path tree)"

fun size_of :: "string \<times> string \<times> (string + nat) \<Rightarrow> nat" where
  "size_of (dirpath, afile, Inr n) = n"
| "size_of (dirpath, afile, Inl e) = 0"

fun size_error :: "string \<times> string \<times> (string + nat) \<Rightarrow> event list" where
  "size_error (dirpath, afile, Inr n) = []"
| "size_error (dirpath, afile, Inl e) = [Log_error e afile]"

definition total_size_of :: "(string \<times> string \<times> (string + nat)) list \<Rightarrow> nat" where
  "total_size_of fs = sum_list (map size_of fs)"

lemma init_file_eq:
  "init_file dirpath f (total_size, count, st) =
     (total_size + size_of (dirpath, f), count + 1, add_events (size_error (dirpath, f)) st)"
  by (cases f; cases "snd f") (auto simp: init_file_def emit_add_events)

lemma init_files_eq:
  "init_files dirpath files (total_size, count, st) =
     (total_size + total_size_of (map (Pair dirpath) files), count + length files,
      add_events (concat (map (\<lambda>f. size_error (dirpath, f)) files)) st)"
  by (induction files arbitrary: total_size count st)
     (simp_all add: init_file_eq total_size_of_def)

lemma init_walk_eq:
  "init_walk items (total_size, count, st) =
     (total_size + total_size_of (walk_files items), count + length (walk_files items),
      add_events (concat (map size_error (walk_files items))) st)"
proof (induction items arbitrary: total_size count st)
  case Nil
  show ?case by (simp add: walk_files_def total_size_of_def)
next
  case (Cons item items)
  obtain dirpath dirs files where item: "item = (dirpath, dirs, files)"
    by (cases item) auto
  show ?case
    by (simp add: item init_files_eq Cons.IH walk_files_def total_size_of_def
        map_concat comp_def)
qed

text \<open>The units of line 125.\<close>

definition UNITS :: "string list" where
  "UNITS = [''bytes'', ''KiB'', ''MiB'', ''GiB'', ''TiB'']"

lemma init_eq:
  "init x path tree st =
     init_units x (length (enumerated x path tree))
       (PInt (total_size_of (enumerated x path tree))) UNITS
       (add_events (Log_comment ''initialization...''
                    # concat (map size_error (enumerated x path tree))) st)"
  unfolding UNITS_def
  by (simp add: init_def Let_def init_walk_eq log_comment_add_events enumerated_def
      del: init_units.simps)

lemma init_units_float:
  assumes "1 \<le> r"
  shows "fst (init_units x count (PFloat r) units st) =
           (if r < 1024 ^ length units then Returns (Some count) else Returns None)"
  using assms
proof (induction units arbitrary: r st)
  case Nil
  then show ?case by (simp add: not_less)
next
  case (Cons u units)
  show ?case
  proof (cases "r < 1024")
    case True
    have "(1::rat) \<le> 1024 ^ length units" by simp
    then have "r < 1024 * 1024 ^ length units" using True by linarith
    then have "r < 1024 ^ length (u # units)" by simp
    then show ?thesis using True by simp
  next
    case False
    have nonneg: "1 \<le> r / 1024" using False by simp
    have "(r / 1024 < 1024 ^ length units) = (r < 1024 ^ length (u # units))"
      by (simp add: divide_less_eq mult.commute)
    then show ?thesis
      using False Cons.IH [OF nonneg] by simp
  qed
qed

lemma init_units_int:
  "fst (init_units x count (PInt t) UNITS st) =
     (if t < 1024 ^ 5 then Returns (Some count)
      else case float_of_nat t of None \<Rightarrow> Raises ''OverflowError'' | Some r \<Rightarrow> Returns None)"
proof (cases "t < 1024")
  case True
  then show ?thesis by (simp add: UNITS_def)
next
  case False
  note ge = this
  show ?thesis
  proof (cases "float_of_nat t")
    case None
    have "\<not> t < 2 ^ 53" using None by (auto simp: float_of_nat_small)
    then have "\<not> t < 1024 ^ 5" by simp
    then show ?thesis using ge None by (simp add: UNITS_def)
  next
    case (Some r)
    have r0: "1 \<le> r / 1024"
    proof (cases "t < 2 ^ 53")
      case True
      then have "r = of_nat t" using Some by (simp add: float_of_nat_small)
      moreover have "rat_of_nat 1024 \<le> rat_of_nat t"
        using ge by (intro of_nat_mono) simp
      ultimately show ?thesis by simp
    next
      case False
      then have "2 ^ 53 \<le> r" using float_of_nat_big [of t r] Some by simp
      then show ?thesis by simp
    qed
    have iff: "(r / 1024 < 1024 ^ 4) = (t < 1024 ^ 5)"
    proof (cases "t < 2 ^ 53")
      case True
      then have "r = of_nat t" using Some by (simp add: float_of_nat_small)
      moreover have "(rat_of_nat t < rat_of_nat (1024 ^ 5)) = (t < 1024 ^ 5)"
        by (rule of_nat_less_iff)
      ultimately show ?thesis by (simp add: divide_less_eq)
    next
      case False
      then have "2 ^ 53 \<le> r" using float_of_nat_big [of t r] Some by simp
      then have "\<not> r / 1024 < 1024 ^ 4" by (simp add: divide_less_eq)
      moreover have "\<not> t < 1024 ^ 5" using False by simp
      ultimately show ?thesis by simp
    qed
    have "fst (init_units x count (PInt t) UNITS st) =
            fst (init_units x count (PFloat (r / 1024)) (tl UNITS) st)"
      using ge Some by (simp add: UNITS_def)
    also have "\<dots> = (if r / 1024 < 1024 ^ 4 then Returns (Some count) else Returns None)"
      using init_units_float [OF r0, of x count "tl UNITS" st] by (simp add: UNITS_def)
    finally show ?thesis using Some iff by simp
  qed
qed

section \<open>Claims about \<open>init\<close>\<close>

text \<open>
  C10. With a total size below \<open>1024 ^ 5\<close> bytes \<open>init\<close> returns the number of files.
  From \<open>1024 ^ 5\<close> bytes on, the loop over the five units ends without reaching the
  \<open>return\<close> and the call returns \<open>None\<close>; it never returns a count there. (A total
  of \<open>2 ^ 1024 - 2 ^ 970\<close> bytes or more, which no file system holds, would make the
  conversion to float raise \<open>OverflowError\<close> instead, still without a count.)
\<close>

theorem init_returns_count_only_below_1024_tib:
  "(total_size_of (enumerated x path tree) < 1024 ^ 5 \<longrightarrow>
      fst (init x path tree st) = Returns (Some (length (enumerated x path tree))))
   \<and> (1024 ^ 5 \<le> total_size_of (enumerated x path tree) \<longrightarrow>
      total_size_of (enumerated x path tree) < 2 ^ 1024 - 2 ^ 970 \<longrightarrow>
      fst (init x path tree st) = Returns None)
   \<and> (1024 ^ 5 \<le> total_size_of (enumerated x path tree) \<longrightarrow>
      (\<forall>c. fst (init x path tree st) \<noteq> Returns (Some c)))"
proof -
  let ?t = "total_size_of (enumerated x path tree)"
  have a: "fst (init x path tree st) = Returns None"
    if lo: "1024 ^ 5 \<le> ?t" and hi: "?t < 2 ^ 1024 - 2 ^ 970"
  proof -
    obtain r where "float_of_nat ?t = Some r"
      using float_of_nat_defined [OF hi] by blast
    then show ?thesis using lo by (simp add: init_eq init_units_int)
  qed
  have b: "fst (init x path tree st) \<noteq> Returns (Some c)" if "1024 ^ 5 \<le> ?t" for c
    using that by (simp add: init_eq init_units_int split: option.splits)
  show ?thesis
    using a b by (simp add: init_eq init_units_int)
qed

text \<open>A tree holding exactly 1024 TiB.\<close>

definition big_tree :: fsnode where
  "big_tree = Dir ''big'' [File ''blob'' (Inr (1024 ^ 5))]"

theorem init_returns_count_only_below_1024_tib_witness:
  "total_size_of (enumerated demo ''/r'' demo_tree) = 60
   \<and> fst (init demo ''/r'' demo_tree (initial_state :: nat state)) = Returns (Some 3)
   \<and> total_size_of (enumerated demo ''/big'' big_tree) = 1024 ^ 5
   \<and> fst (init demo ''/big'' big_tree (initial_state :: nat state)) = Returns None"
proof -
  have t1: "total_size_of (enumerated demo ''/r'' demo_tree) = 60"
    and n1: "length (enumerated demo ''/r'' demo_tree) = 3"
    by (simp_all add: enumerated_def walk_files_def total_size_of_def demo_tree_def demo_def)
  have t2: "total_size_of (enumerated demo ''/big'' big_tree) = 1024 ^ 5"
    by (simp add: enumerated_def walk_files_def total_size_of_def big_tree_def demo_def)
  note thm1 = init_returns_count_only_below_1024_tib
                [of demo "''/r''" demo_tree "initial_state :: nat state"]
  note thm2 = init_returns_count_only_below_1024_tib
                [of demo "''/big''" big_tree "initial_state :: nat state"]
  have "fst (init demo ''/r'' demo_tree (initial_state :: nat state)) = Returns (Some 3)"
    using thm1 [THEN conjunct1] by (simp add: t1 n1)
  moreover have "fst (init demo ''/big'' big_tree (initial_state :: nat state)) = Returns None"
    using thm2 [THEN conjunct2, THEN conjunct1] by (simp add: t2)
  ultimately show ?thesis using t1 t2 by simp
qed

section \<open>What the two passes enumerate\<close>

text \<open>
  In a real directory no two entries have the same name; \<open>distinct_names\<close> says so for
  every directory of a tree.
\<close>

fun distinct_names :: "fsnode \<Rightarrow> bool" where
  "distinct_names (Dir n entries) =
     (distinct (map entry_name entries) \<and> list_all distinct_names entries)"
| "distinct_names (Dir_opaque n) = True"
| "distinct_names (File n sz) = True"

text \<open>
  Every regular file of a tree that can be reached from the root through directories that
  can be entered, with the names of the directories passed on the way (the root itself
  left out), in the order of a top-down walk.
\<close>

fun located :: "fsnode \<Rightarrow> (string list \<times> string \<times> (string + nat)) list" where
  "located (Dir n entries) =
     map (Pair []) (files_of entries)
     @ concat (map (\<lambda>d. map (\<lambda>(ns, f). (entry_name d # ns, f)) (located d))
                   (filter is_dir entries))"
| "located (Dir_opaque n) = []"
| "located (File n sz) = []"

text \<open>
  The \<open>root\<close> that \<open>os.walk\<close> reports for a location: the names joined to the path the
  walk started from. A location is excluded when one of its directory names is in the
  exclusion list.
\<close>

definition at_path ::
  "string \<Rightarrow> string list \<times> string \<times> (string + nat) \<Rightarrow> string \<times> string \<times> (string + nat)" where
  "at_path path = (\<lambda>(ns, f). (foldl path_join path ns, f))"

definition not_excluded :: "string list \<Rightarrow> string list \<times> string \<times> (string + nat) \<Rightarrow> bool" where
  "not_excluded skips = (\<lambda>(ns, f). set ns \<inter> set skips = {})"

lemma remove_entry_distinct:
  "distinct (map entry_name es) \<Longrightarrow>
     remove_entry n es = filter (\<lambda>e. entry_name e \<noteq> n) es"
proof (induction es)
  case Nil
  show ?case by simp
next
  case (Cons e es)
  show ?case
  proof (cases "entry_name e = n")
    case True
    then have "\<forall>e' \<in> set es. entry_name e' \<noteq> n" using Cons.prems by (force simp: image_iff)
    then have "filter (\<lambda>e. entry_name e \<noteq> n) es = es" by (simp add: filter_id_conv)
    then show ?thesis using True by simp
  next
    case False
    then show ?thesis using Cons by simp
  qed
qed

lemma prune_dirs_distinct:
  "distinct (map entry_name dirs) \<Longrightarrow>
     prune_dirs skips dirs = filter (\<lambda>e. entry_name e \<notin> set skips) dirs"
proof (induction skips arbitrary: dirs)
  case Nil
  show ?case by simp
next
  case (Cons skip skips)
  let ?dirs' = "filter (\<lambda>e. entry_name e \<noteq> skip) dirs"
  have step: "(if skip \<in> set (map entry_name dirs) then remove_entry skip dirs else dirs) = ?dirs'"
  proof (cases "skip \<in> set (map entry_name dirs)")
    case True
    then show ?thesis using Cons.prems by (simp add: remove_entry_distinct)
  next
    case False
    then have "\<forall>e \<in> set dirs. entry_name e \<noteq> skip" by auto
    then have "?dirs' = dirs" by (simp add: filter_id_conv)
    then show ?thesis using False by simp
  qed
  have "distinct (map entry_name ?dirs')"
    using Cons.prems by (rule distinct_map_filter)
  then have "prune_dirs skips ?dirs' = filter (\<lambda>e. entry_name e \<notin> set skips) ?dirs'"
    by (rule Cons.IH)
  then show ?case
    unfolding prune_dirs.simps step by (simp add: conj_commute)
qed

lemma walk_files_Cons:
  "walk_files ((dirpath, dirs, files) # items) = map (Pair dirpath) files @ walk_files items"
  by (simp add: walk_files_def)

lemma walk_files_concat: "walk_files (concat xss) = concat (map walk_files xss)"
  by (induction xss) (simp_all add: walk_files_def)

lemma at_path_Nil: "map (at_path path) (map (Pair []) fs) = map (Pair path) fs"
  by (simp add: at_path_def)

lemma filter_not_excluded_Nil: "filter (not_excluded skips) (map (Pair []) fs) = map (Pair []) fs"
  by (induction fs) (simp_all add: not_excluded_def)

lemma filter_not_excluded_push:
  "filter (not_excluded skips) (map (\<lambda>(ns, f). (n # ns, f)) l) =
     (if n \<in> set skips then [] else map (\<lambda>(ns, f). (n # ns, f)) (filter (not_excluded skips) l))"
  by (induction l) (auto simp: not_excluded_def)

lemma at_path_push:
  "map (at_path path) (map (\<lambda>(ns, f). (n # ns, f)) l) = map (at_path (path_join path n)) l"
  by (induction l) (auto simp: at_path_def)

lemma located_subdir:
  "map (at_path p) (filter (not_excluded skips) (map (\<lambda>(ns, f). (n # ns, f)) l)) =
     (if n \<in> set skips then []
      else map (at_path (path_join p n)) (filter (not_excluded skips) l))"
  by (simp only: filter_not_excluded_push at_path_push if_distrib [of "map (at_path p)"]
      list.map)

lemma map_filter_concat:
  "map f (filter P (concat (map h ds))) = concat (map (\<lambda>d. map f (filter P (h d))) ds)"
  by (induction ds) simp_all

lemma walk_files_located:
  "distinct_names tree \<Longrightarrow>
     walk_files (walk skips path tree) =
       map (at_path path) (filter (not_excluded skips) (located tree))"
proof (induction skips path tree rule: walk.induct)
  case (1 skips dirpath n entries)
  let ?dirs = "filter is_dir entries"
  let ?kept = "filter (\<lambda>e. entry_name e \<notin> set skips) ?dirs"
  have dist: "distinct (map entry_name ?dirs)"
    using "1.prems" by (simp add: distinct_map_filter)
  have pd: "prune_dirs skips ?dirs = ?kept"
    using dist by (rule prune_dirs_distinct)
  have sub: "walk_files (walk skips (path_join dirpath (entry_name d)) d) =
             map (at_path (path_join dirpath (entry_name d)))
                 (filter (not_excluded skips) (located d))"
    if "d \<in> set ?kept" for d
  proof -
    have "d \<in> set (prune_dirs skips ?dirs)" using that pd by simp
    moreover have "distinct_names d"
      using that "1.prems" by (auto simp: list_all_iff)
    ultimately show ?thesis by (rule "1.IH")
  qed
  have lhs: "walk_files (walk skips dirpath (Dir n entries)) =
      map (Pair dirpath) (files_of entries)
      @ concat (map (\<lambda>d. map (at_path (path_join dirpath (entry_name d)))
                               (filter (not_excluded skips) (located d))) ?kept)"
  proof -
    have "map (\<lambda>d. walk_files (walk skips (path_join dirpath (entry_name d)) d)) ?kept =
          map (\<lambda>d. map (at_path (path_join dirpath (entry_name d)))
                        (filter (not_excluded skips) (located d))) ?kept"
      by (rule map_cong [OF refl]) (rule sub)
    moreover have "walk_files (walk skips dirpath (Dir n entries)) =
          map (Pair dirpath) (files_of entries)
          @ concat (map (\<lambda>d. walk_files (walk skips (path_join dirpath (entry_name d)) d))
                        ?kept)"
      by (simp only: walk.simps pd walk_files_Cons walk_files_concat map_map comp_def)
    ultimately show ?thesis by (simp only:)
  qed
  have sel: "concat (map (\<lambda>d. if entry_name d \<in> set skips then [] else g d) ds) =
             concat (map g (filter (\<lambda>e. entry_name e \<notin> set skips) ds))"
    for g :: "fsnode \<Rightarrow> (string \<times> string \<times> (string + nat)) list" and ds
    by (induction ds) simp_all
  have rhs: "map (at_path dirpath) (filter (not_excluded skips) (located (Dir n entries))) =
      map (Pair dirpath) (files_of entries)
      @ concat (map (\<lambda>d. if entry_name d \<in> set skips then []
                          else map (at_path (path_join dirpath (entry_name d)))
                                   (filter (not_excluded skips) (located d))) ?dirs)"
    by (simp only: located.simps filter_append map_append filter_not_excluded_Nil at_path_Nil
        map_filter_concat located_subdir)
  show ?case
    unfolding lhs rhs sel ..
next
  case (2 skips dirpath n)
  show ?case by (simp add: walk_files_def)
next
  case (3 skips dirpath n sz)
  show ?case by (simp add: walk_files_def)
qed

section \<open>What \<open>scan\<close> computes\<close>

text \<open>The loop of \<open>scan\<close> as one loop over the enumerated files.\<close>

fun scan_enumerated ::
  "'k externals \<Rightarrow> nat \<Rightarrow> (string \<times> string \<times> (string + nat)) list \<Rightarrow> nat \<times> nat \<times> 'k state
     \<Rightarrow> nat \<times> nat \<times> 'k state"
where
  "scan_enumerated x bs [] acc = acc"
| "scan_enumerated x bs ((dirpath, f) # fs) acc =
     scan_enumerated x bs fs (scan_file x bs dirpath f acc)"

lemma scan_enumerated_append:
  "scan_enumerated x bs (fs @ gs) acc = scan_enumerated x bs gs (scan_enumerated x bs fs acc)"
  by (induction x bs fs acc rule: scan_enumerated.induct) simp_all

lemma scan_files_eq:
  "scan_files x bs dirpath files acc = scan_enumerated x bs (map (Pair dirpath) files) acc"
  by (induction files arbitrary: acc) simp_all

lemma scan_walk_eq: "scan_walk x bs items acc = scan_enumerated x bs (walk_files items) acc"
proof (induction items arbitrary: acc)
  case Nil
  show ?case by (simp add: walk_files_def)
next
  case (Cons item items)
  obtain dirpath dirs files where item: "item = (dirpath, dirs, files)"
    by (cases item) auto
  show ?case
    by (simp add: item Cons.IH scan_files_eq walk_files_Cons scan_enumerated_append)
qed

text \<open>The events before the loop (lines 134-143) and the end of \<open>scan\<close> (lines 175-178).\<close>

definition scan_start :: "event list" where
  "scan_start =
     (let bar_width = 32
      in [Log_comment ''scanning files...'',
          Stdout_write (''['' @ replicate (bar_width + 1) (CHR '' '') @ '']''),
          Stdout_write (replicate (bar_width + 2) (CHR 0x08))])"

definition scan_finish :: "nat \<times> nat \<times> 'k state \<Rightarrow> nat outcome \<times> 'k state" where
  "scan_finish = (\<lambda>(scanned, bar_count, st).
     (Returns scanned,
      add_events [Stdout_write [NL],
                  Log_comment (str_of_nat scanned @ '' files supported have been processed'')]
                 st))"

lemma scan_eq:
  "scan x path tree (Some c) st =
     scan_finish (scan_enumerated x (c div 32) (enumerated x path tree)
                    (0, 0, add_events scan_start st))"
  by (simp add: scan_def Let_def scan_walk_eq enumerated_def scan_finish_def scan_start_def
      log_comment_add_events emit_add_events split_beta)

lemma scan_None: "scan x path tree None st = (Raises ''TypeError'', add_events scan_start st)"
  by (simp add: scan_def Let_def scan_start_def log_comment_add_events emit_add_events)

text \<open>
  For an enumerated file: the path given to \<open>type_file\<close> and \<open>do_file\<close>; whether it is
  processed (supported and not of an encrypted type) or encrypted (supported and of an
  encrypted type); the call of \<open>do_file\<close> and the encrypted notice for it.
\<close>

definition apath :: "'k externals \<Rightarrow> string \<times> string \<times> (string + nat) \<Rightarrow> string" where
  "apath x = (\<lambda>(dirpath, afile, sz). abspath x (path_join dirpath afile))"

definition is_processed :: "'k externals \<Rightarrow> string \<times> string \<times> (string + nat) \<Rightarrow> bool" where
  "is_processed x e =
     (snd (type_file x (apath x e)) \<and> fst (type_file x (apath x e)) \<notin> set (ENCRYPTED x))"

definition is_encrypted :: "'k externals \<Rightarrow> string \<times> string \<times> (string + nat) \<Rightarrow> bool" where
  "is_encrypted x e =
     (snd (type_file x (apath x e)) \<and> fst (type_file x (apath x e)) \<in> set (ENCRYPTED x))"

definition do_event :: "'k externals \<Rightarrow> string \<times> string \<times> (string + nat) \<Rightarrow> event" where
  "do_event x e = Do_file (fst (type_file x (apath x e))) (apath x e)"

definition enc_event :: "'k externals \<Rightarrow> string \<times> string \<times> (string + nat) \<Rightarrow> event" where
  "enc_event x = (\<lambda>(dirpath, afile, sz).
     Log_encrypted (fst (type_file x (abspath x (path_join dirpath afile)))) afile)"

fun is_do_file :: "event \<Rightarrow> bool" where
  "is_do_file (Do_file ftype p) = True"
| "is_do_file e = False"

fun is_log_encrypted :: "event \<Rightarrow> bool" where
  "is_log_encrypted (Log_encrypted ftype f) = True"
| "is_log_encrypted e = False"

text \<open>
  The events one round of the loop adds, and the progress counter after it; then the same
  for the whole loop.
\<close>

definition secret_events :: "'k externals \<Rightarrow> string \<times> string \<times> (string + nat) \<Rightarrow> event list" where
  "secret_events x e =
     (case infilename_search x (lower (fst (snd e))) of
        Some g \<Rightarrow> [Log_secret g (apath x e)]
      | None \<Rightarrow> [])"

definition file_events ::
  "'k externals \<Rightarrow> nat \<Rightarrow> nat \<Rightarrow> string \<times> string \<times> (string + nat) \<Rightarrow> event list" where
  "file_events x bs bar_count e =
     secret_events x e
     @ (if is_encrypted x e then [enc_event x e]
        else if is_processed x e
        then do_event x e # (if bs \<le> bar_count + 1 then [Stdout_write ''=''] else [])
        else [])"

definition next_bar ::
  "'k externals \<Rightarrow> nat \<Rightarrow> nat \<Rightarrow> string \<times> string \<times> (string + nat) \<Rightarrow> nat" where
  "next_bar x bs bar_count e =
     (if is_processed x e then (if bs \<le> bar_count + 1 then 0 else bar_count + 1)
      else bar_count)"

fun scan_events ::
  "'k externals \<Rightarrow> nat \<Rightarrow> nat \<Rightarrow> (string \<times> string \<times> (string + nat)) list \<Rightarrow> event list" where
  "scan_events x bs bar_count [] = []"
| "scan_events x bs bar_count (e # fs) =
     file_events x bs bar_count e @ scan_events x bs (next_bar x bs bar_count e) fs"

fun final_bar ::
  "'k externals \<Rightarrow> nat \<Rightarrow> nat \<Rightarrow> (string \<times> string \<times> (string + nat)) list \<Rightarrow> nat" where
  "final_bar x bs bar_count [] = bar_count"
| "final_bar x bs bar_count (e # fs) = final_bar x bs (next_bar x bs bar_count e) fs"

lemma scan_file_eq:
  "scan_file x bs dirpath (afile, sz) (scanned, bar_count, st) =
     (scanned + (if is_processed x (dirpath, afile, sz) then 1 else 0),
      next_bar x bs bar_count (dirpath, afile, sz),
      add_events (file_events x bs bar_count (dirpath, afile, sz)) st)"
proof -
  obtain ftype supported where tf: "type_file x (abspath x (path_join dirpath afile)) = (ftype, supported)"
    by (cases "type_file x (abspath x (path_join dirpath afile))") auto
  show ?thesis
    by (cases "infilename_search x (lower afile)")
       (simp_all add: scan_file_def Let_def tf is_processed_def is_encrypted_def do_event_def
          enc_event_def apath_def emit_add_events file_events_def next_bar_def
          secret_events_def)
qed

lemma scan_enumerated_eq:
  "scan_enumerated x bs fs (scanned, bar_count, st) =
     (scanned + length (filter (is_processed x) fs), final_bar x bs bar_count fs,
      add_events (scan_events x bs bar_count fs) st)"
proof (induction fs arbitrary: scanned bar_count st)
  case Nil
  show ?case by simp
next
  case (Cons f fs)
  obtain dirpath afile sz where f: "f = (dirpath, afile, sz)"
    by (cases f) auto
  show ?case
    by (simp add: f scan_file_eq Cons.IH)
qed

lemma file_events_do_file:
  "filter is_do_file (file_events x bs bar_count e) =
     (if is_processed x e then [do_event x e] else [])"
  by (cases e)
     (auto simp: file_events_def secret_events_def is_processed_def is_encrypted_def
        do_event_def enc_event_def split: option.splits)

lemma file_events_log_encrypted:
  "filter is_log_encrypted (file_events x bs bar_count e) =
     (if is_encrypted x e then [enc_event x e] else [])"
  by (cases e)
     (auto simp: file_events_def secret_events_def is_processed_def is_encrypted_def
        do_event_def enc_event_def split: option.splits)

lemma scan_events_do_file:
  "filter is_do_file (scan_events x bs bar_count fs) = map (do_event x) (filter (is_processed x) fs)"
  by (induction fs arbitrary: bar_count) (simp_all add: file_events_do_file)

lemma scan_events_log_encrypted:
  "filter is_log_encrypted (scan_events x bs bar_count fs) =
     map (enc_event x) (filter (is_encrypted x) fs)"
  by (induction fs arbitrary: bar_count) (simp_all add: file_events_log_encrypted)

section \<open>Claims about the two passes\<close>

text \<open>
  C8. \<open>scan\<close> returns the number of enumerated files that are supported and not of an
  encrypted type; \<open>do_file\<close> is called for exactly those, in order; every enumerated file
  that is supported and of an encrypted type gets its \<open>log_encrypted\<close> notice, is not
  among the processed ones, and \<open>do_file\<close> is never called with an encrypted type.
\<close>

theorem encrypted_files_are_reported_not_scanned:
  assumes "scan x path tree (Some c) st = (r, st')"
  shows "r = Returns (length (filter (is_processed x) (enumerated x path tree)))
       \<and> filter is_do_file (trace st') =
           filter is_do_file (trace st)
           @ map (do_event x) (filter (is_processed x) (enumerated x path tree))
       \<and> filter is_log_encrypted (trace st') =
           filter is_log_encrypted (trace st)
           @ map (enc_event x) (filter (is_encrypted x) (enumerated x path tree))
       \<and> (\<forall>e \<in> set (enumerated x path tree).
             is_encrypted x e \<longrightarrow> \<not> is_processed x e \<and> enc_event x e \<in> set (trace st'))
       \<and> (\<forall>ftype p. Do_file ftype p \<in> set (trace st') \<longrightarrow>
             Do_file ftype p \<in> set (trace st) \<or> ftype \<notin> set (ENCRYPTED x))"
proof -
  let ?E = "enumerated x path tree"
  let ?evs = "scan_start @ scan_events x (c div 32) 0 ?E
              @ [Stdout_write [NL],
                 Log_comment (str_of_nat (length (filter (is_processed x) ?E))
                              @ '' files supported have been processed'')]"
  have run: "scan x path tree (Some c) st =
               (Returns (length (filter (is_processed x) ?E)), add_events ?evs st)"
    by (simp add: scan_eq scan_enumerated_eq scan_finish_def)
  then have r: "r = Returns (length (filter (is_processed x) ?E))"
    and st': "st' = add_events ?evs st"
    using assms by simp_all
  have do_f: "filter is_do_file (trace st') =
      filter is_do_file (trace st) @ map (do_event x) (filter (is_processed x) ?E)"
    by (simp add: st' scan_events_do_file scan_start_def)
  have enc: "filter is_log_encrypted (trace st') =
      filter is_log_encrypted (trace st) @ map (enc_event x) (filter (is_encrypted x) ?E)"
    by (simp add: st' scan_events_log_encrypted scan_start_def)
  have four: "\<not> is_processed x e \<and> enc_event x e \<in> set (trace st')"
    if "e \<in> set ?E" and "is_encrypted x e" for e
  proof
    show "\<not> is_processed x e"
      using that(2) by (simp add: is_processed_def is_encrypted_def)
    have "enc_event x e \<in> set (filter is_log_encrypted (trace st'))"
      unfolding enc using that by simp
    then show "enc_event x e \<in> set (trace st')" by simp
  qed
  have five: "Do_file ftype p \<in> set (trace st) \<or> ftype \<notin> set (ENCRYPTED x)"
    if "Do_file ftype p \<in> set (trace st')" for ftype p
  proof -
    have "Do_file ftype p \<in> set (filter is_do_file (trace st'))" using that by simp
    then consider "Do_file ftype p \<in> set (trace st)"
      | e where "is_processed x e" "Do_file ftype p = do_event x e"
      unfolding do_f by auto
    then show ?thesis
      by cases (auto simp: is_processed_def do_event_def)
  qed
  show ?thesis
    using r do_f enc four five by blast
qed

theorem encrypted_files_are_reported_not_scanned_witness:
  "scan demo ''/r'' demo_tree (Some 3) initial_state =
     (Returns 1,
      \<lparr>HASHES = {}, HASH_KEY = KInt 0, HASH_REGEX = [],
       trace = [Log_comment ''scanning files...'',
                Stdout_write ''[                                 ]'',
                Stdout_write (replicate 34 (CHR 0x08)),
                Log_secret ''id_rsa'' ''/r/id_rsa'',
                Do_file ''text'' ''/r/id_rsa'',
                Stdout_write ''='',
                Log_encrypted ''gpg'' ''secrets.gpg'',
                Stdout_write ''\<newline>'',
                Log_comment ''1 files supported have been processed'']\<rparr>)
   \<and> filter (is_encrypted demo) (enumerated demo ''/r'' demo_tree)
       = [(''/r'', ''secrets.gpg'', Inr 30)]
   \<and> filter (is_processed demo) (enumerated demo ''/r'' demo_tree)
       = [(''/r'', ''id_rsa'', Inr 20)]"
proof -
  have run: "scan demo ''/r'' demo_tree (Some 3) initial_state =
     (Returns 1,
      \<lparr>HASHES = {}, HASH_KEY = KInt 0, HASH_REGEX = [],
       trace = [Log_comment ''scanning files...'',
                Stdout_write ''[                                 ]'',
                Stdout_write (replicate 34 (CHR 0x08)),
                Log_secret ''id_rsa'' ''/r/id_rsa'',
                Do_file ''text'' ''/r/id_rsa'',
                Stdout_write ''='',
                Log_encrypted ''gpg'' ''secrets.gpg'',
                Stdout_write ''\<newline>'',
                Log_comment ''1 files supported have been processed'']\<rparr>)"
    unfolding demo_tree_def by code_simp
  have E: "enumerated demo ''/r'' demo_tree =
      [(''/r'', ''readme.txt'', Inr 10), (''/r'', ''id_rsa'', Inr 20),
       (''/r'', ''secrets.gpg'', Inr 30)]"
    by (simp add: enumerated_def walk_files_def demo_tree_def demo_def)
  have enc: "filter (is_encrypted demo) (enumerated demo ''/r'' demo_tree)
       = [(''/r'', ''secrets.gpg'', Inr 30)]"
    unfolding E by (simp add: is_encrypted_def apath_def path_join_def demo_def)
  have pro: "filter (is_processed demo) (enumerated demo ''/r'' demo_tree)
       = [(''/r'', ''id_rsa'', Inr 20)]"
    unfolding E by (simp add: is_processed_def apath_def path_join_def demo_def)
  show ?thesis
    using encrypted_files_are_reported_not_scanned [OF run] run enc pro by simp
qed

text \<open>A scan root that is itself named \<open>.git\<close>.\<close>

definition git_root :: fsnode where
  "git_root = Dir ''.git'' [File ''config'' (Inr 5)]"

text \<open>
  C7. The claim: no file under a directory whose name is in the exclusion set is
  enumerated. It fails for the directory the scan starts from: \<open>os.walk\<close> yields the
  root without looking at its name, and the loops only remove names from the \<open>dirs\<close> of
  a directory already entered. Started on a directory named \<open>.git\<close>, with \<open>.git\<close>
  excluded, the sizing pass counts the file in it.
\<close>

theorem excluded_name_of_scan_root_is_ignored:
  "''.git'' \<in> set (SKIP demo)
   \<and> enumerated demo ''/home/u/.git'' git_root = [(''/home/u/.git'', ''config'', Inr 5)]
   \<and> fst (init demo ''/home/u/.git'' git_root (initial_state :: nat state)) = Returns (Some 1)"
  by (simp add: init_eq init_units_int enumerated_def walk_files_def git_root_def demo_def
      total_size_of_def)

text \<open>
  C7, amended. Below the scan root exclusion is total: the files both passes enumerate
  are exactly the files of the tree none of whose directories below the root, at any
  depth, has a name in \<open>SKIP\<close>; and both passes see the tree through this list only.
\<close>

theorem excluded_subtrees_are_never_enumerated:
  assumes "distinct_names tree"
  shows "enumerated x path tree =
           map (at_path path) (filter (not_excluded (SKIP x)) (located tree))
       \<and> init x path tree st =
           init_units x (length (enumerated x path tree))
             (PInt (total_size_of (enumerated x path tree))) UNITS
             (add_events (Log_comment ''initialization...''
                          # concat (map size_error (enumerated x path tree))) st)
       \<and> scan x path tree (Some c) st =
           scan_finish (scan_enumerated x (c div 32) (enumerated x path tree)
                          (0, 0, add_events scan_start st))"
  using walk_files_located [OF assms, of "SKIP x" path]
  by (simp add: enumerated_def [symmetric] init_eq scan_eq)

text \<open>A tree with an excluded directory two levels down, and a directory inside it.\<close>

definition nested_tree :: fsnode where
  "nested_tree =
     Dir ''r'' [File ''a.txt'' (Inr 1),
                Dir ''src'' [File ''b.txt'' (Inr 2),
                             Dir ''.svn'' [File ''entries'' (Inr 4),
                                           Dir ''deep'' [File ''c.txt'' (Inr 8)]]]]"

theorem excluded_subtrees_are_never_enumerated_witness:
  "distinct_names nested_tree
   \<and> located nested_tree =
       [([], ''a.txt'', Inr 1), ([''src''], ''b.txt'', Inr 2),
        ([''src'', ''.svn''], ''entries'', Inr 4),
        ([''src'', ''.svn'', ''deep''], ''c.txt'', Inr 8)]
   \<and> enumerated demo ''/r'' nested_tree =
       [(''/r'', ''a.txt'', Inr 1), (''/r/src'', ''b.txt'', Inr 2)]"
proof -
  have d: "distinct_names nested_tree"
    by (simp add: nested_tree_def)
  have l: "located nested_tree =
       [([], ''a.txt'', Inr 1), ([''src''], ''b.txt'', Inr 2),
        ([''src'', ''.svn''], ''entries'', Inr 4),
        ([''src'', ''.svn'', ''deep''], ''c.txt'', Inr 8)]"
    by (simp add: nested_tree_def)
  show ?thesis
    using excluded_subtrees_are_never_enumerated [OF d, of demo "''/r''", THEN conjunct1] d
    by (simp add: l not_excluded_def at_path_def path_join_def demo_def)
qed

section \<open>Claims about \<open>count_secrets\<close>\<close>

text \<open>
  The number of places of \<open>s\<close> at which \<open>sub\<close> occurs. The marker cannot overlap with
  itself, so the scan of \<open>str.count\<close> finds every occurrence.
\<close>

fun occurrences :: "string \<Rightarrow> string \<Rightarrow> nat" where
  "occurrences sub [] = (if sub = [] then 1 else 0)"
| "occurrences sub (c # cs) =
     (if take (length sub) (c # cs) = sub then 1 else 0) + occurrences sub cs"

lemma occurrences_short:
  "sub \<noteq> [] \<Longrightarrow> length s < length sub \<Longrightarrow> occurrences sub s = 0"
proof (induction s)
  case Nil
  then show ?case by simp
next
  case (Cons c cs)
  have "take (length sub) (c # cs) \<noteq> sub"
  proof
    assume "take (length sub) (c # cs) = sub"
    then have "length (take (length sub) (c # cs)) = length sub" by simp
    then show False using Cons.prems(2) by simp
  qed
  then show ?case using Cons by simp
qed

lemma occurrences_token_prefix:
  "occurrences SECRET_TOKEN (SECRET_TOKEN @ s) = 1 + occurrences SECRET_TOKEN s"
  by (simp add: SECRET_TOKEN_def)

lemma py_count_token: "py_count SECRET_TOKEN s = occurrences SECRET_TOKEN s"
proof (induction s rule: length_induct)
  case (1 s)
  note IH = this
  have ne: "SECRET_TOKEN \<noteq> []" by (simp add: SECRET_TOKEN_def)
  show ?case
  proof (cases "length s < length SECRET_TOKEN")
    case True
    then show ?thesis
      using ne by (simp add: py_count.simps [of SECRET_TOKEN s] occurrences_short)
  next
    case long: False
    show ?thesis
    proof (cases "take (length SECRET_TOKEN) s = SECRET_TOKEN")
      case True
      then have s: "s = SECRET_TOKEN @ drop (length SECRET_TOKEN) s"
        by (metis append_take_drop_id)
      have "length (drop (length SECRET_TOKEN) s) < length s"
        using long ne by (cases s) auto
      then have "py_count SECRET_TOKEN (drop (length SECRET_TOKEN) s) =
                 occurrences SECRET_TOKEN (drop (length SECRET_TOKEN) s)"
        using IH by blast
      moreover have "occurrences SECRET_TOKEN s =
                 1 + occurrences SECRET_TOKEN (drop (length SECRET_TOKEN) s)"
        using occurrences_token_prefix [of "drop (length SECRET_TOKEN) s"] s by simp
      ultimately show ?thesis
        using ne long True by (simp add: py_count.simps [of SECRET_TOKEN s])
    next
      case False
      obtain c cs where s: "s = c # cs"
        using long ne by (cases s) auto
      have "py_count SECRET_TOKEN cs = occurrences SECRET_TOKEN cs"
        using IH s by simp
      then show ?thesis
        using ne long False by (simp add: py_count.simps [of SECRET_TOKEN "c # cs"] s)
    qed
  qed
qed

lemma occurrences_card:
  assumes "sub \<noteq> []"
  shows "occurrences sub s = card {i. take (length sub) (drop i s) = sub}"
proof (induction s)
  case Nil
  have "{i. take (length sub) (drop i ([]::string)) = sub} = {}"
    using assms by auto
  then show ?case using assms by simp
next
  case (Cons c cs)
  let ?P = "\<lambda>s i. take (length sub) (drop i s) = sub"
  have fin: "finite {i. ?P cs i}"
  proof (rule finite_subset)
    show "{i. ?P cs i} \<subseteq> {..length cs}"
    proof
      fix i assume "i \<in> {i. ?P cs i}"
      then have "drop i cs \<noteq> []" using assms by auto
      then show "i \<in> {..length cs}" by simp
    qed
  qed simp
  have split: "{i. ?P (c # cs) i} = (if ?P (c # cs) 0 then {0} else {}) \<union> Suc ` {i. ?P cs i}"
  proof (intro set_eqI iffI)
    fix i assume "i \<in> {i. ?P (c # cs) i}"
    then show "i \<in> (if ?P (c # cs) 0 then {0} else {}) \<union> Suc ` {i. ?P cs i}"
      by (cases i) auto
  next
    fix i assume "i \<in> (if ?P (c # cs) 0 then {0} else {}) \<union> Suc ` {i. ?P cs i}"
    then show "i \<in> {i. ?P (c # cs) i}"
      by (auto split: if_splits)
  qed
  have "card {i. ?P (c # cs) i} =
        card (if ?P (c # cs) 0 then {0::nat} else {}) + card (Suc ` {i. ?P cs i})"
    unfolding split using fin by (intro card_Un_disjoint) (auto split: if_splits)
  also have "card (Suc ` {i. ?P cs i}) = card {i. ?P cs i}"
    by (rule card_image) simp
  finally show ?case using Cons.IH by simp
qed

text \<open>The comment of line 184.\<close>

definition msg_flagged :: "nat \<Rightarrow> event" where
  "msg_flagged n =
     Log_comment (str_of_nat n @ '' files or strings flagged as ''
                  @ [CHR 0x22] @ ''secret'' @ [CHR 0x22])"

text \<open>
  C9. The claim: the tally returns the number of occurrences of the marker. It fails:
  \<open>count_secrets\<close> has no \<open>return\<close> statement, so the call returns \<open>None\<close>, here on
  a log text in which the marker occurs twice.
\<close>

theorem count_secrets_returns_none:
  "fst (count_secrets ''a SECRET, b SECRET, c'' (initial_state :: nat state)) = Returns None
   \<and> py_count SECRET_TOKEN ''a SECRET, b SECRET, c'' = 2"
  by (simp add: count_secrets_def SECRET_TOKEN_def py_count.simps)

text \<open>
  C9, amended. \<open>count_secrets\<close> counts the occurrences of \<open>SECRET,\<close> in the log text
  and reports the number in a log comment; it returns \<open>None\<close> and changes nothing else:
  the three globals stay as they were.
\<close>

theorem count_secrets_logs_number_of_markers:
  "count_secrets logs st =
     (Returns None,
      add_events
        [msg_flagged (card {i. take (length SECRET_TOKEN) (drop i logs) = SECRET_TOKEN})] st)
   \<and> SECRET_TOKEN = ''SECRET,''"
proof -
  have ne: "SECRET_TOKEN \<noteq> []" by (simp add: SECRET_TOKEN_def)
  show ?thesis
    by (simp add: count_secrets_def py_count_token occurrences_card [OF ne]
        log_comment_add_events msg_flagged_def SECRET_TOKEN_def [symmetric])
qed

section \<open>Claims about the run\<close>

text \<open>
  The events that only \<open>init\<close> and \<open>scan\<close> produce: a call of \<open>do_file\<close> and the two
  comments that open the passes.
\<close>

definition outside_get_hashes :: "event \<Rightarrow> bool" where
  "outside_get_hashes e =
     (is_do_file e \<or> e = Log_comment ''initialization...'' \<or> e = Log_comment ''scanning files...'')"

lemma line_msgs_inside: "list_all (\<lambda>e. \<not> outside_get_hashes e) (line_msgs x line)"
  by (simp add: line_msgs_def outside_get_hashes_def msg_hash_length_def msg_hash_value_def)

lemma check_msgs_inside:
  "list_all (\<lambda>e. \<not> outside_get_hashes e) (check_msgs x mismatch regex fin)"
proof -
  have "list_all (\<lambda>e. \<not> outside_get_hashes e) (concat (map (line_msgs x) fin))"
    by (induction fin) (simp_all add: line_msgs_inside)
  then show ?thesis
    by (simp add: check_msgs_def outside_get_hashes_def)
qed

lemma get_hashes_malformed:
  assumes "\<not> list_all (line_ok x) (hash_lines content)"
  shows "\<exists>evs st0. get_hashes x hashesfile pwd content st = (Exits 1, add_events evs st0)
           \<and> HASHES st0 = HASHES st \<and> trace st0 = trace st
           \<and> list_all (\<lambda>e. \<not> outside_get_hashes e) evs"
proof (cases "length (split_str (CHR '','') (second_line content)) = 2")
  case False
  let ?evs = "[msg_verifying hashesfile, Log_comment ''failed to extract verifier and salt'',
               bye_event x]"
  have "get_hashes x hashesfile pwd content st = (Exits 1, add_events ?evs st)"
    using False by (rule get_hashes_nosplit)
  moreover have "list_all (\<lambda>e. \<not> outside_get_hashes e) ?evs"
    by (simp add: outside_get_hashes_def msg_verifying_def bye_event_def)
  ultimately show ?thesis by blast
next
  case True
  then obtain salt verifier where
    split: "split_str (CHR '','') (second_line content) = [salt, verifier]"
    by (auto simp: length_Suc_conv numeral_2_eq_2)
  obtain key averifier salt' where kd: "key_derivation x pwd salt = (key, averifier, salt')"
    by (cases "key_derivation x pwd salt") auto
  let ?evs = "[msg_verifying hashesfile]
         @ check_msgs x (verifier \<noteq> averifier) (regex_line content) (hash_lines content)
         @ [Log_comment ''hashes file failed to verify, aborting...'', bye_event x]"
  let ?st0 = "if verifier \<noteq> averifier then st
              else st\<lparr>HASH_KEY := Derived key, HASH_REGEX := regex_line content\<rparr>"
  have "get_hashes x hashesfile pwd content st = (Exits 1, add_events ?evs ?st0)"
    using assms by (intro get_hashes_failure [OF split kd]) simp
  moreover have "list_all (\<lambda>e. \<not> outside_get_hashes e) ?evs"
    using check_msgs_inside [of x "verifier \<noteq> averifier" "regex_line content" "hash_lines content"]
    by (simp add: outside_get_hashes_def msg_verifying_def bye_event_def)
  moreover have "HASHES ?st0 = HASHES st" "trace ?st0 = trace st" by simp_all
  ultimately show ?thesis by blast
qed

text \<open>
  C3. The claim: with a malformed hash line the key, the regex and the hash set stay
  unpopulated and the scan proceeds as if no hashes file had been named. It fails: line 95
  ends the process through \<open>bye\<close>, so nothing is scanned, whereas a run without a hashes
  file scans; and here, where the password is right, the key and the regex are already
  stored (C1).
\<close>

theorem malformed_hash_line_does_not_let_scan_proceed:
  "main_steps demo ''h.txt'' ''pw'' bad_line_content ''/r'' demo_tree initial_state =
     (Exits 1,
      \<lparr>HASHES = {}, HASH_KEY = Derived 2, HASH_REGEX = ''a+'',
       trace = [Log_comment ''verifying hashes file h.txt...'',
                Log_comment ''invalid hash length (2 bytes): zz'',
                Log_comment ''invalid hash value (should be hex string): zz'',
                Log_comment ''hashes file failed to verify, aborting...'',
                Print ''thank you for using blueflower, please report bugs'']\<rparr>)
   \<and> Do_file ''text'' ''/r/id_rsa''
       \<in> set (trace (snd (main_steps demo [] [] [] ''/r'' demo_tree initial_state)))"
  unfolding bad_line_content_def demo_tree_def by code_simp

text \<open>
  C3, amended. When a hashes file is named and one of its hash lines is malformed, the run
  ends inside \<open>get_hashes\<close> with exit status 1: \<open>init\<close> and \<open>scan\<close> never start, no
  file is given to \<open>do_file\<close>, and \<open>HASHES\<close> stays as it was.
\<close>

theorem malformed_hash_line_ends_the_run:
  assumes "hashesfile \<noteq> []" and "\<not> list_all (line_ok x) (hash_lines content)"
  shows "main_steps x hashesfile pwd content path tree st =
           get_hashes x hashesfile pwd content st
       \<and> fst (main_steps x hashesfile pwd content path tree st) = Exits 1
       \<and> HASHES (snd (main_steps x hashesfile pwd content path tree st)) = HASHES st
       \<and> take (length (trace st))
              (trace (snd (main_steps x hashesfile pwd content path tree st))) = trace st
       \<and> list_all (\<lambda>e. \<not> outside_get_hashes e)
            (drop (length (trace st))
               (trace (snd (main_steps x hashesfile pwd content path tree st))))"
proof -
  obtain evs st0 where
    gh: "get_hashes x hashesfile pwd content st = (Exits 1, add_events evs st0)"
    and H: "HASHES st0 = HASHES st" and T: "trace st0 = trace st"
    and inside: "list_all (\<lambda>e. \<not> outside_get_hashes e) evs"
    using get_hashes_malformed [OF assms(2), of hashesfile pwd st] by blast
  have m: "main_steps x hashesfile pwd content path tree st =
             get_hashes x hashesfile pwd content st"
    using assms(1) by (simp add: main_steps_def and_then_def gh)
  show ?thesis
    unfolding m gh using H T inside by simp
qed

theorem malformed_hash_line_ends_the_run_witness:
  "\<not> list_all (line_ok demo) (hash_lines bad_line_content)
   \<and> main_steps demo ''h.txt'' ''pw'' bad_line_content ''/r'' demo_tree initial_state =
       get_hashes demo ''h.txt'' ''pw'' bad_line_content initial_state
   \<and> fst (main_steps demo ''h.txt'' ''pw'' bad_line_content ''/r'' demo_tree
            (initial_state :: nat state)) = Exits 1
   \<and> HASHES (snd (main_steps demo ''h.txt'' ''pw'' bad_line_content ''/r'' demo_tree
                    (initial_state :: nat state))) = {}"
proof -
  have sl: "split_lines bad_line_content =
      [''a+\<newline>'', ''s,pws\<newline>'', ''abcd\<newline>'', ''zz\<newline>'', ''00ff\<newline>'']"
    by (simp add: bad_line_content_def NL_def)
  have ne: "''h.txt'' \<noteq> []" by simp
  have bad: "\<not> list_all (line_ok demo) (hash_lines bad_line_content)"
    by (simp add: sl demo_eval)
  have h: "HASHES (initial_state :: nat state) = {}"
    by (simp add: initial_state_def)
  show ?thesis
    using malformed_hash_line_ends_the_run [OF ne bad, of "''pw''" "''/r''" demo_tree
        "initial_state :: nat state"] bad h
    by auto
qed

end
